theory Spec2Isabelle
  imports Complex_Main "HOL-Library.Sublist" "HOL-Library.Log_Nat"
begin

section \<open>The IDE client of \<open>packages/ide/src/client.ts\<close>\<close>

text \<open>
  The class \<open>Client\<close> wraps asynchronous start-up work in \<open>task\<close>, which keeps a list of
  pending descriptions, a counter of finished tasks, a session timer and a progress bar,
  and its constructor shows the result of \<open>initialize()\<close> on the loading overlay.

  \<open>task\<close> is an \<open>async\<close> method: one call runs in up to three synchronous blocks,
  separated by its two \<open>await\<close>s, and blocks of different calls interleave on the one
  event loop. The model is a transition system: a \<open>world\<close> holds the fields of the client,
  the calls of \<open>task\<close> made so far (each with its local variables and the \<open>await\<close> it is
  suspended at) and the effects emitted so far; an \<open>event\<close> is either a call of \<open>task\<close> or
  the environment settling a promise and resuming the call that awaits it.
\<close>

subsection \<open>Values\<close>

text \<open>
  Modelled from the spec: \<open>time(expected)\<close> and \<open>Time\<close> of the logging collaborator
  \<open>@coder/logger\<close>, whose source is not among the files. It starts a timer with a budget
  in milliseconds and yields the elapsed time when logged. The instant a timer is created
  at is real time and is not modelled; the budget is all that a \<open>Time\<close> carries here.
\<close>

datatype Time = Time int

definition time :: "int \<Rightarrow> Time" where
  "time expected = Time expected"

text \<open>
  JavaScript numbers are IEEE 754 binary64 values, and \<open>/\<close> and \<open>*\<close> round their exact
  result to the nearest such value, ties to the even significand. \<open>binary64 x\<close> is that
  rounding of the real \<open>x\<close>: \<open>exponent x\<close> is the \<open>e\<close> with \<open>2 ^ e \<le> x < 2 ^ (e + 1)\<close>, and \<open>x\<close>
  is rounded to a multiple of \<open>2 ^ (e - 52)\<close>, which leaves a significand of 53 bits. The
  exponent is not limited here: overflow and subnormal results would need operands beyond
  \<open>2 ^ 53\<close>, and integers below \<open>2 ^ 53\<close>, the only operands of the client, are binary64
  values as they are.
\<close>

definition exponent :: "real \<Rightarrow> int" where
  "exponent x = (if 1 \<le> x then bitlen \<lfloor>x\<rfloor> - 1 else - bitlen (\<lceil>1 / x\<rceil> - 1))"

definition round_half_even :: "real \<Rightarrow> int" where
  "round_half_even x =
     (let n = \<lfloor>x\<rfloor>; r = x - of_int n
      in if r < 1 / 2 then n else if 1 / 2 < r then n + 1 else if even n then n else n + 1)"

definition binary64 :: "real \<Rightarrow> real" where
  "binary64 x =
     (if x = 0 then 0
      else (let ulp = 2 powi (exponent \<bar>x\<bar> - 52)
            in sgn x * (of_int (round_half_even (\<bar>x\<bar> / ulp)) * ulp)))"

text \<open>
  \<open>Math.round\<close> gives the nearest integer, the larger one at a tie, and is exact. The
  results of \<open>Math.round((a / b) * 100)\<close> on integers \<open>a\<close>, \<open>b\<close>, as line 130 computes them:
  the quotient rounded to binary64, its product with 100 rounded to binary64, and that
  rounded to an integer; or what JavaScript gives for a zero divisor.
\<close>

datatype js_number = Finite int | NaN | Infinity | NegInfinity

definition Math_round :: "real \<Rightarrow> int" where
  "Math_round x = \<lfloor>x + 1 / 2\<rfloor>"

definition js_div_times_100_rounded :: "int \<Rightarrow> int \<Rightarrow> js_number" where
  "js_div_times_100_rounded a b =
     (if b = 0 then (if a = 0 then NaN else if 0 < a then Infinity else NegInfinity)
      else Finite (Math_round (binary64 (binary64 (real_of_int a / real_of_int b) * 100))))"

text \<open>A promise is pending, fulfilled with a value, or rejected with an error.\<close>

datatype ('a, 'e) promise = Pending | Fulfilled 'a | Rejected 'e

fun fulfilled_value :: "('a, 'e) promise \<Rightarrow> 'a option" where
  "fulfilled_value (Fulfilled v) = Some v"
| "fulfilled_value _ = None"

text \<open>
  \<open>Array.prototype.indexOf\<close> (strict equality, first match, \<open>-1\<close> when absent) and
  \<open>Array.prototype.splice(start, deleteCount)\<close>, the array that is left.
\<close>

fun indexOf_from :: "'a list \<Rightarrow> 'a \<Rightarrow> int \<Rightarrow> int" where
  "indexOf_from [] x i = - 1"
| "indexOf_from (y # ys) x i = (if y = x then i else indexOf_from ys x (i + 1))"

definition indexOf :: "'a list \<Rightarrow> 'a \<Rightarrow> int" where
  "indexOf xs x = indexOf_from xs x 0"

definition splice :: "'a list \<Rightarrow> int \<Rightarrow> int \<Rightarrow> 'a list" where
  "splice xs start deleteCount =
     (let len = int (length xs);
          actualStart = (if start < 0 then max (len + start) 0 else min start len);
          actualDeleteCount = min (max deleteCount 0) (len - actualStart)
      in take (nat actualStart) xs @ drop (nat (actualStart + actualDeleteCount)) xs)"

subsection \<open>The state\<close>

text \<open>
  The inline style of the progress element, \<open>#fill\<close>. \<open>width = Some n\<close> stands for the
  string \<open>`${n}%`\<close>; \<open>None\<close> is a property never assigned.
\<close>

record style =
  width :: "js_number option"
  backgroundColor :: "string option"

text \<open>
  What the client emits: calls of the logger (\<open>logger.info\<close>, \<open>logger.warn\<close>,
  \<open>logger.error\<close> of \<open>@coder/logger\<close>) with their message and fields, and assignments to
  the style of the progress element. \<open>Duration None\<close> is the field
  \<open>field("duration", "not started")\<close>. The logger and the assignments are taken not to
  throw.
\<close>

datatype 'e field = Duration "Time option" | Count int | ErrorField 'e

datatype 'e effect =
    LogInfo string "'e field list"
  | LogWarn string "'e field list"
  | LogError string "'e field list"
  | SetWidth js_number
  | SetBackgroundColor string

text \<open>
  One call of \<open>task\<close>: its arguments, the promise it awaits at line 137, its local
  variable \<open>start\<close> and where it stands. \<open>Returned v\<close> and \<open>Thrown e\<close> are the two ways the
  promise that \<open>task\<close> returned settles.
\<close>

datatype ('a, 'e) pc = AwaitAfter | AwaitTask "'a list" | Returned 'a | Thrown 'e

record ('a, 'e) activation =
  description :: string
  duration :: int
  after :: "('a, 'e) promise list"
  waitFor :: "('a list, 'e) promise"
  task_start :: "Time option"
  pc :: "('a, 'e) pc"

text \<open>
  The fields of \<open>Client\<close> that \<open>task\<close> reads and writes (\<open>start\<close>, \<open>progressElement\<close>,
  \<open>tasks\<close>, \<open>finishedTaskCount\<close>), the calls of \<open>task\<close> in call order, and the effects,
  oldest first. \<open>finishedTaskCount\<close> is a JavaScript number that only ever holds
  integers; it is an unbounded \<open>int\<close> here, which agrees with the number below
  \<open>2 ^ 53\<close> finished tasks.
\<close>

record ('a, 'e) world =
  start :: "Time option"
  progressElement :: "style option"
  tasks :: "string list"
  finishedTaskCount :: int
  activations :: "('a, 'e) activation list"
  effects :: "'e effect list"

text \<open>The field initialisers (lines 39 to 42) and the lookup of \<open>#fill\<close> (line 65).\<close>

definition new_Client :: "style option \<Rightarrow> ('a, 'e) world" where
  "new_Client fill =
     \<lparr>start = None, progressElement = fill, tasks = [], finishedTaskCount = 0,
      activations = [], effects = []\<rparr>"

subsection \<open>The method \<open>task\<close>\<close>

text \<open>The closure \<open>updateProgress\<close> (lines 128 to 132).\<close>

definition progress_denominator :: "('a, 'e) world \<Rightarrow> int" where
  "progress_denominator w = int (length (tasks w)) + finishedTaskCount w"

definition progress_percent :: "('a, 'e) world \<Rightarrow> js_number" where
  "progress_percent w = js_div_times_100_rounded (finishedTaskCount w) (progress_denominator w)"

definition updateProgress :: "('a, 'e) world \<Rightarrow> ('a, 'e) world" where
  "updateProgress w =
     (case progressElement w of
        None \<Rightarrow> w
      | Some el \<Rightarrow>
          w\<lparr>progressElement := Some (el\<lparr>width := Some (progress_percent w)\<rparr>),
            effects := effects w @ [SetWidth (progress_percent w)]\<rparr>)"

text \<open>Lines 124 to 127: the push and the session timer, up to the first \<open>updateProgress()\<close>.\<close>

definition task_register :: "string \<Rightarrow> ('a, 'e) world \<Rightarrow> ('a, 'e) world" where
  "task_register d w =
     (let w1 = w\<lparr>tasks := tasks w @ [d]\<rparr>
      in if start w1 = None then w1\<lparr>start := Some (time 1000)\<rparr> else w1)"

text \<open>
  Lines 121 to 137, the synchronous part of a call with \<open>n\<close> dependency promises: the
  registration, \<open>updateProgress()\<close>, and the suspension at
  \<open>await (after && after.length > 0 ? Promise.all(after) : Promise.resolve([]))\<close>.
  \<open>duration\<close> defaults to 100.
\<close>

definition suspended_call :: "string \<Rightarrow> int option \<Rightarrow> nat \<Rightarrow> ('a, 'e) activation" where
  "suspended_call d dur n =
     \<lparr>description = d,
      duration = (case dur of None \<Rightarrow> 100 | Some x \<Rightarrow> x),
      after = replicate n Pending,
      waitFor = (if 0 < n then Pending else Fulfilled []),
      task_start = None,
      pc = AwaitAfter\<rparr>"

definition task_call :: "string \<Rightarrow> int option \<Rightarrow> nat \<Rightarrow> ('a, 'e) world \<Rightarrow> ('a, 'e) world" where
  "task_call d dur n w =
     (let w1 = updateProgress (task_register d w)
      in w1\<lparr>activations := activations w1 @ [suspended_call d dur n]\<rparr>)"

text \<open>
  \<open>Promise.all(after)\<close>: dependency \<open>k\<close> settles with \<open>r\<close>. The combined promise, while
  pending, is rejected by the first rejection and fulfilled, with the values in the order
  of the arguments, once every dependency is fulfilled.
\<close>

definition settle_after ::
  "('a, 'e) activation \<Rightarrow> nat \<Rightarrow> ('a, 'e) promise \<Rightarrow> ('a, 'e) activation" where
  "settle_after a k r =
     (let ps = (after a)[k := r]
      in a\<lparr>after := ps,
           waitFor :=
             (case waitFor a of
                Pending \<Rightarrow>
                  (case r of
                     Rejected e \<Rightarrow> Rejected e
                   | _ \<Rightarrow> (case those (map fulfilled_value ps) of
                            Some vs \<Rightarrow> Fulfilled vs
                          | None \<Rightarrow> Pending))
              | s \<Rightarrow> s)\<rparr>)"

text \<open>The \<open>catch\<close> block, lines 154 to 160.\<close>

definition task_catch ::
  "('a, 'e) activation \<Rightarrow> 'e \<Rightarrow> ('a, 'e) world \<Rightarrow> ('a, 'e) activation \<times> ('a, 'e) world" where
  "task_catch a error w =
     (let w1 = w\<lparr>effects := effects w @
                 [LogError (''Failed '' @ [CHR 0x22] @ description a @ [CHR 0x22])
                    [Duration (task_start a), ErrorField error]]\<rparr>;
          w2 = (case progressElement w1 of
                  None \<Rightarrow> w1
                | Some el \<Rightarrow>
                    w1\<lparr>progressElement := Some (el\<lparr>backgroundColor := Some ''red''\<rparr>),
                       effects := effects w1 @ [SetBackgroundColor ''red'']\<rparr>)
      in (a\<lparr>pc := Thrown error\<rparr>, w2))"

text \<open>
  The call resumes from the \<open>await\<close> of line 137: on a rejection in the \<open>catch\<close> block,
  otherwise with lines 138 to 140, up to the \<open>await\<close> of the work function's promise.
\<close>

definition task_resume ::
  "('a, 'e) activation \<Rightarrow> ('a, 'e) world \<Rightarrow> (('a, 'e) activation \<times> ('a, 'e) world) option" where
  "task_resume a w =
     (case waitFor a of
        Pending \<Rightarrow> None
      | Rejected e \<Rightarrow> Some (task_catch a e w)
      | Fulfilled vs \<Rightarrow>
          Some (a\<lparr>task_start := Some (time (duration a)), pc := AwaitTask vs\<rparr>,
                w\<lparr>effects := effects w @ [LogInfo (description a) []]\<rparr>))"

text \<open>Lines 141 to 146, up to the second \<open>updateProgress()\<close>.\<close>

definition task_finish :: "('a, 'e) activation \<Rightarrow> ('a, 'e) world \<Rightarrow> ('a, 'e) world" where
  "task_finish a w =
     (let w1 = w\<lparr>effects := effects w @
                 [LogInfo (''Finished '' @ [CHR 0x22] @ description a @ [CHR 0x22])
                    [Duration (task_start a)]]\<rparr>;
          index = indexOf (tasks w1) (description a);
          w2 = (if index \<noteq> - 1 then w1\<lparr>tasks := splice (tasks w1) index 1\<rparr> else w1)
      in w2\<lparr>finishedTaskCount := finishedTaskCount w2 + 1\<rparr>)"

text \<open>Lines 141 to 153: the work function's promise was fulfilled with \<open>v\<close>.\<close>

definition task_success ::
  "('a, 'e) activation \<Rightarrow> 'a \<Rightarrow> ('a, 'e) world \<Rightarrow> ('a, 'e) activation \<times> ('a, 'e) world" where
  "task_success a v w =
     (let w1 = updateProgress (task_finish a w);
          w2 = (if length (tasks w1) = 0
                then w1\<lparr>effects := effects w1 @
                          [LogInfo ''Finished all queued tasks''
                             [Duration (start w1), Count (finishedTaskCount w1)]],
                        start := None\<rparr>
                else w1)
      in (a\<lparr>pc := Returned v\<rparr>, w2))"

subsection \<open>Events and runs\<close>

text \<open>
  \<open>Call d dur n\<close> is \<open>this.task(d, dur, work, p1, ..., pn)\<close>; the call gets the next index.
  \<open>AfterFulfils i k v\<close> and \<open>AfterRejects i k e\<close> settle dependency \<open>k\<close> of call \<open>i\<close>.
  \<open>Resume i\<close> resumes call \<open>i\<close> once the promise of line 137 is settled. \<open>TaskFulfils i v\<close>
  and \<open>TaskRejects i e\<close> settle the promise of the work function of call \<open>i\<close> and resume
  the call. A work function that throws before it returns a promise enters the same
  \<open>catch\<close> block with the same state as one whose promise rejects at once: \<open>Resume i\<close>
  followed by \<open>TaskRejects i e\<close>. An event that cannot happen in the state gives \<open>None\<close>.
\<close>

datatype ('a, 'e) event =
    Call string "int option" nat
  | AfterFulfils nat nat 'a
  | AfterRejects nat nat 'e
  | Resume nat
  | TaskFulfils nat 'a
  | TaskRejects nat 'e

definition put :: "nat \<Rightarrow> ('a, 'e) activation \<times> ('a, 'e) world \<Rightarrow> ('a, 'e) world" where
  "put i aw = (snd aw)\<lparr>activations := (activations (snd aw))[i := fst aw]\<rparr>"

definition dependency_pending :: "('a, 'e) world \<Rightarrow> nat \<Rightarrow> nat \<Rightarrow> bool" where
  "dependency_pending w i k =
     (i < length (activations w) \<and> k < length (after (activations w ! i)) \<and>
      after (activations w ! i) ! k = Pending)"

fun step :: "('a, 'e) world \<Rightarrow> ('a, 'e) event \<Rightarrow> ('a, 'e) world option" where
  "step w (Call d dur n) = Some (task_call d dur n w)"
| "step w (AfterFulfils i k v) =
     (if dependency_pending w i k
      then Some (w\<lparr>activations :=
                    (activations w)[i := settle_after (activations w ! i) k (Fulfilled v)]\<rparr>)
      else None)"
| "step w (AfterRejects i k e) =
     (if dependency_pending w i k
      then Some (w\<lparr>activations :=
                    (activations w)[i := settle_after (activations w ! i) k (Rejected e)]\<rparr>)
      else None)"
| "step w (Resume i) =
     (if i < length (activations w) \<and> pc (activations w ! i) = AwaitAfter
      then map_option (put i) (task_resume (activations w ! i) w)
      else None)"
| "step w (TaskFulfils i v) =
     (if i < length (activations w)
      then (case pc (activations w ! i) of
              AwaitTask args \<Rightarrow> Some (put i (task_success (activations w ! i) v w))
            | _ \<Rightarrow> None)
      else None)"
| "step w (TaskRejects i e) =
     (if i < length (activations w)
      then (case pc (activations w ! i) of
              AwaitTask args \<Rightarrow> Some (put i (task_catch (activations w ! i) e w))
            | _ \<Rightarrow> None)
      else None)"

fun run :: "('a, 'e) world \<Rightarrow> ('a, 'e) event list \<Rightarrow> ('a, 'e) world option" where
  "run w [] = Some w"
| "run w (ev # evs) = (case step w ev of None \<Rightarrow> None | Some w' \<Rightarrow> run w' evs)"

subsection \<open>The constructor and the loading overlay\<close>

text \<open>
  The part of the document the constructor's handlers touch: the element \<open>#overlay\<close>, its
  descendant \<open>.message\<close> (looked up once, at line 53) and the children appended to the
  parent of that element. Either element may be missing.
\<close>

datatype js_error = JsError (message: string)

record button_element =
  className :: string
  button_innerText :: string
  click_reloads :: bool

record message_element =
  innerText :: string
  parent_appended :: "button_element list"

record overlay_element =
  opacity :: "string option"
  classList :: "string list"
  removes_on_transitionend :: bool
  message_child :: "message_element option"

text \<open>
  The client as far as the constructor is concerned: the overlay, \<open>loadTime\<close>, the promise
  returned by the one call of \<open>initialize()\<close> at line 83, and the logger's output.
\<close>

record page =
  overlay :: "overlay_element option"
  loadTime :: Time
  initialize :: "(unit, js_error) promise"
  logged :: "js_error effect list"

datatype LifecycleState = Loading | Succeeded | Failed

definition lifecycle :: "page \<Rightarrow> LifecycleState" where
  "lifecycle p =
     (case initialize p of Pending \<Rightarrow> Loading | Fulfilled u \<Rightarrow> Succeeded | Rejected e \<Rightarrow> Failed)"

definition classList_add :: "string list \<Rightarrow> string \<Rightarrow> string list" where
  "classList_add cl c = (if c \<in> set cl then cl else cl @ [c])"

text \<open>Lines 45 to 83, as far as the overlay goes: \<open>initialize()\<close> has been called.\<close>

definition Client_constructor :: "overlay_element option \<Rightarrow> page" where
  "Client_constructor ov =
     \<lparr>overlay = ov, loadTime = time 2500, initialize = Pending,
      logged = [LogInfo ''Loading IDE'' []]\<rparr>"

text \<open>The handler given to \<open>then\<close>, lines 83 to 91.\<close>

definition on_fulfilled :: "page \<Rightarrow> page" where
  "on_fulfilled p =
     (let p1 = (case overlay p of
                  None \<Rightarrow> p
                | Some ov \<Rightarrow>
                    p\<lparr>overlay := Some (ov\<lparr>opacity := Some ''0'',
                                           removes_on_transitionend := True\<rparr>)\<rparr>)
      in p1\<lparr>logged := logged p1 @ [LogInfo ''Load completed'' [Duration (Some (loadTime p1))]]\<rparr>)"

text \<open>The handler given to \<open>catch\<close>, lines 91 to 107.\<close>

definition reload_button :: button_element where
  "reload_button =
     \<lparr>className = ''reload-button'', button_innerText = ''Reload'', click_reloads = True\<rparr>"

definition on_rejected :: "js_error \<Rightarrow> page \<Rightarrow> page" where
  "on_rejected error p =
     (let p1 = p\<lparr>logged := logged p @ [LogError (message error) []]\<rparr>;
          p2 = (case overlay p1 of
                  None \<Rightarrow> p1
                | Some ov \<Rightarrow> p1\<lparr>overlay := Some (ov\<lparr>classList := classList_add (classList ov) ''error''\<rparr>)\<rparr>);
          p3 = (case overlay p2 of
                  None \<Rightarrow> p2
                | Some ov \<Rightarrow>
                    (case message_child ov of
                       None \<Rightarrow> p2
                     | Some msgElement \<Rightarrow>
                         p2\<lparr>overlay := Some (ov\<lparr>message_child := Some
                              \<lparr>innerText = ''Failed to load: '' @ message error @ ''.'',
                               parent_appended = parent_appended msgElement @ [reload_button]\<rparr>\<rparr>)\<rparr>))
      in p3\<lparr>logged := logged p3 @
              [LogWarn ''Load completed with errors'' [Duration (Some (loadTime p3))]]\<rparr>)"

text \<open>
  The environment tries to settle the promise of \<open>initialize()\<close> with \<open>r\<close>. A promise
  settles once: on a settled promise the attempt does nothing, and no handler runs.
  Otherwise \<open>then\<close>'s handler runs on a fulfilment and \<open>catch\<close>'s on a rejection. The first
  handler has no statement that throws on the elements modelled, so the second never runs
  after it.
\<close>

definition settle_initialize :: "(unit, js_error) promise \<Rightarrow> page \<Rightarrow> page" where
  "settle_initialize r p =
     (case initialize p of
        Pending \<Rightarrow>
          (case r of
             Pending \<Rightarrow> p
           | Fulfilled u \<Rightarrow> on_fulfilled (p\<lparr>initialize := r\<rparr>)
           | Rejected e \<Rightarrow> on_rejected e (p\<lparr>initialize := r\<rparr>))
      | _ \<Rightarrow> p)"

text \<open>What the overlay shows: whether it is marked as errored, its message, its reload buttons.\<close>

definition marked_errored :: "page \<Rightarrow> bool" where
  "marked_errored p = (case overlay p of None \<Rightarrow> False | Some ov \<Rightarrow> ''error'' \<in> set (classList ov))"

definition displayed_message :: "page \<Rightarrow> string option" where
  "displayed_message p =
     (case overlay p of
        None \<Rightarrow> None
      | Some ov \<Rightarrow> map_option innerText (message_child ov))"

definition reload_affordances :: "page \<Rightarrow> button_element list" where
  "reload_affordances p =
     (case overlay p of
        None \<Rightarrow> []
      | Some ov \<Rightarrow>
          (case message_child ov of
             None \<Rightarrow> []
           | Some m \<Rightarrow> filter (\<lambda>b. className b = ''reload-button'') (parent_appended m)))"

text \<open>
  The terminal transitions a page has made so far, read from the log: the handler given
  to \<open>then\<close> ends with the message \<open>Load completed\<close> and the handler given to \<open>catch\<close> with
  the warning \<open>Load completed with errors\<close>, each once per run.
\<close>

fun completion :: "js_error effect \<Rightarrow> LifecycleState list" where
  "completion (LogInfo m fs) = (if m = ''Load completed'' then [Succeeded] else [])"
| "completion (LogWarn m fs) = (if m = ''Load completed with errors'' then [Failed] else [])"
| "completion x = []"

definition transitions :: "page \<Rightarrow> LifecycleState list" where
  "transitions p = concat (map completion (logged p))"

subsection \<open>Notions the properties are stated with\<close>

text \<open>
  A call is \<open>unfinished\<close> until it returns: suspended at one of its \<open>await\<close>s, or failed.
  \<open>unfinished_calls w d\<close> counts the unfinished calls whose description is \<open>d\<close>.
\<close>

definition unfinished :: "('a, 'e) activation \<Rightarrow> bool" where
  "unfinished a = (case pc a of Returned v \<Rightarrow> False | _ \<Rightarrow> True)"

definition unfinished_calls :: "('a, 'e) world \<Rightarrow> string \<Rightarrow> nat" where
  "unfinished_calls w d =
     length (filter (\<lambda>a. description a = d \<and> unfinished a) (activations w))"

text \<open>
  The invariant of the fields: the counter is not negative, the session timer is set
  exactly while the list is not empty, and the list holds each description as many times
  as there are unfinished calls with it.
\<close>

definition task_invariant :: "('a, 'e) world \<Rightarrow> bool" where
  "task_invariant w =
     (0 \<le> finishedTaskCount w \<and>
      (start w = None \<longleftrightarrow> tasks w = []) \<and>
      (\<forall>d. count_list (tasks w) d = unfinished_calls w d))"

text \<open>The widths assigned to the progress element, among some effects.\<close>

fun width_writes :: "'e effect list \<Rightarrow> js_number list" where
  "width_writes [] = []"
| "width_writes (SetWidth n # es) = n # width_writes es"
| "width_writes (e # es) = width_writes es"

text \<open>The effects of the step, or steps, from \<open>w\<close> to \<open>w'\<close>.\<close>

definition emitted :: "('a, 'e) world \<Rightarrow> ('a, 'e) world \<Rightarrow> 'e effect list" where
  "emitted w w' = drop (length (effects w)) (effects w')"

definition percentage :: "js_number \<Rightarrow> bool" where
  "percentage n = (case n of Finite k \<Rightarrow> 0 \<le> k \<and> k \<le> 100 | _ \<Rightarrow> False)"

text \<open>
  The event \<open>ev\<close> takes call \<open>i\<close> into its \<open>catch\<close> block with the error \<open>e\<close>: the work
  function's promise rejects with \<open>e\<close>, or the call resumes from a dependency wait that
  was rejected with \<open>e\<close>.
\<close>

definition fails :: "('a, 'e) world \<Rightarrow> ('a, 'e) event \<Rightarrow> nat \<Rightarrow> 'e \<Rightarrow> bool" where
  "fails w ev i e =
     (ev = TaskRejects i e \<or>
      (ev = Resume i \<and> i < length (activations w) \<and> waitFor (activations w ! i) = Rejected e))"

text \<open>The promise that the call of \<open>task\<close> returned to its caller.\<close>

definition returned_promise :: "('a, 'e) activation \<Rightarrow> ('a, 'e) promise" where
  "returned_promise a =
     (case pc a of Returned v \<Rightarrow> Fulfilled v | Thrown e \<Rightarrow> Rejected e | _ \<Rightarrow> Pending)"

text \<open>The evaluation lemmas for concrete runs.\<close>

lemmas exec =
  new_Client_def task_call_def suspended_call_def task_register_def updateProgress_def
  progress_percent_def progress_denominator_def js_div_times_100_rounded_def Math_round_def
  binary64_def exponent_def round_half_even_def compute_bitlen
  time_def settle_after_def task_catch_def task_resume_def task_finish_def task_success_def
  put_def dependency_pending_def indexOf_def splice_def Let_def

text \<open>
  The event makes the client recompute the progress: it assigns a width to the progress
  element. (The widths are compared as assignments, not as values: an assignment of the
  value already there is an assignment.)
\<close>

definition recomputes_progress :: "('a, 'e) world \<Rightarrow> ('a, 'e) event \<Rightarrow> bool" where
  "recomputes_progress w ev =
     (case step w ev of None \<Rightarrow> False | Some w' \<Rightarrow> width_writes (emitted w w') \<noteq> [])"

text \<open>The descriptions passed to \<open>task\<close> in a run, in call order.\<close>

fun called :: "('a, 'e) event list \<Rightarrow> string list" where
  "called [] = []"
| "called (Call d dur n # evs) = d # called evs"
| "called (ev # evs) = called evs"

text \<open>
  The promise awaited at line 137 is the combined wait on all the dependencies: pending
  while some dependency is pending and none is rejected, fulfilled with the values in the
  order of the arguments when every dependency is fulfilled, and rejected only with the
  error of a rejected dependency.
\<close>

fun is_rejected :: "('a, 'e) promise \<Rightarrow> bool" where
  "is_rejected (Rejected e) = True"
| "is_rejected _ = False"

definition wait_consistent :: "('a, 'e) activation \<Rightarrow> bool" where
  "wait_consistent a =
     (case waitFor a of
        Pending \<Rightarrow> Pending \<in> set (after a) \<and> \<not> list_ex is_rejected (after a)
      | Fulfilled vs \<Rightarrow> after a = map Fulfilled vs
      | Rejected e \<Rightarrow> Rejected e \<in> set (after a))"



text \<open>
  What is left of a world, and of an event, when the duration budgets are forgotten: the
  argument \<open>duration\<close> of every call, and the budget of every timer made from it (the local
  \<open>start\<close> of a call and the \<open>duration\<close> fields of the log). Everything else stays: the
  pending list, the counter, the session timer being set or not, the progress element,
  where every call stands and what its returned promise settled with, its dependencies,
  and the sequence of effects with their messages.
\<close>

definition forget_time :: "Time option \<Rightarrow> Time option" where
  "forget_time t = map_option (\<lambda>x. Time 0) t"

fun forget_field :: "'e field \<Rightarrow> 'e field" where
  "forget_field (Duration t) = Duration (forget_time t)"
| "forget_field f = f"

fun forget_effect :: "'e effect \<Rightarrow> 'e effect" where
  "forget_effect (LogInfo m fs) = LogInfo m (map forget_field fs)"
| "forget_effect (LogWarn m fs) = LogWarn m (map forget_field fs)"
| "forget_effect (LogError m fs) = LogError m (map forget_field fs)"
| "forget_effect x = x"

definition forget_activation :: "('a, 'e) activation \<Rightarrow> ('a, 'e) activation" where
  "forget_activation a = a\<lparr>duration := 0, task_start := forget_time (task_start a)\<rparr>"

definition forget_budgets :: "('a, 'e) world \<Rightarrow> ('a, 'e) world" where
  "forget_budgets w =
     w\<lparr>activations := map forget_activation (activations w),
       effects := map forget_effect (effects w)\<rparr>"

fun forget_budget :: "('a, 'e) event \<Rightarrow> ('a, 'e) event" where
  "forget_budget (Call d dur n) = Call d None n"
| "forget_budget ev = ev"

definition forget_pair ::
  "('a, 'e) activation \<times> ('a, 'e) world \<Rightarrow> ('a, 'e) activation \<times> ('a, 'e) world" where
  "forget_pair aw = (forget_activation (fst aw), forget_budgets (snd aw))"

section \<open>Proofs\<close>

subsection \<open>\<open>indexOf\<close>, \<open>splice\<close> and counting\<close>

lemma indexOf_from_absent: "x \<notin> set xs \<Longrightarrow> indexOf_from xs x i = - 1"
  by (induction xs arbitrary: i) auto

lemma indexOf_from_present:
  "x \<in> set xs \<Longrightarrow>
   \<exists>k < length xs. indexOf_from xs x i = i + int k \<and> xs ! k = x \<and> x \<notin> set (take k xs) \<and>
     remove1 x xs = take k xs @ drop (Suc k) xs"
proof (induction xs arbitrary: i)
  case Nil
  then show ?case by simp
next
  case (Cons y ys)
  show ?case
  proof (cases "y = x")
    case True
    then show ?thesis by (intro exI[of _ 0]) simp
  next
    case False
    with Cons.prems have "x \<in> set ys" by simp
    from Cons.IH[OF this, of "i + 1"] obtain k where k: "k < length ys"
      "indexOf_from ys x (i + 1) = i + 1 + int k" "ys ! k = x" "x \<notin> set (take k ys)"
      "remove1 x ys = take k ys @ drop (Suc k) ys" by blast
    with False show ?thesis by (intro exI[of _ "Suc k"]) simp
  qed
qed

lemma indexOf_absent_iff: "indexOf xs x = - 1 \<longleftrightarrow> x \<notin> set xs"
proof
  assume "indexOf xs x = - 1"
  show "x \<notin> set xs"
  proof
    assume "x \<in> set xs"
    from indexOf_from_present[OF this, of 0] \<open>indexOf xs x = - 1\<close> show False
      by (auto simp: indexOf_def)
  qed
next
  assume "x \<notin> set xs" then show "indexOf xs x = - 1"
    by (simp add: indexOf_def indexOf_from_absent)
qed

lemma splice_one: "k < length xs \<Longrightarrow> splice xs (int k) 1 = take k xs @ drop (Suc k) xs"
  by (simp add: splice_def Let_def min_def max_def nat_add_distrib)

lemma splice_indexOf:
  "(if indexOf xs x \<noteq> - 1 then splice xs (indexOf xs x) 1 else xs) = remove1 x xs"
proof (cases "x \<in> set xs")
  case True
  from indexOf_from_present[OF this, of 0] obtain k where k: "k < length xs"
    "indexOf xs x = int k" "remove1 x xs = take k xs @ drop (Suc k) xs"
    by (auto simp: indexOf_def)
  then show ?thesis by (simp add: splice_one)
next
  case False
  then show ?thesis by (simp add: indexOf_absent_iff remove1_idem)
qed


lemma count_list_remove1:
  "count_list (remove1 d xs) x = count_list xs x - (if x = d \<and> d \<in> set xs then 1 else 0)"
  by (induction xs) auto

lemma length_filter_update:
  "i < length xs \<Longrightarrow>
   length (filter P (xs[i := y])) + (if P (xs ! i) then 1 else 0) =
   length (filter P xs) + (if P y then 1 else 0)"
proof (induction xs arbitrary: i)
  case Nil
  then show ?case by simp
next
  case (Cons x xs)
  then show ?case by (cases i) auto
qed

subsection \<open>What each block of \<open>task\<close> does to each field\<close>

lemma updateProgress_fields [simp]:
  "start (updateProgress w) = start w"
  "tasks (updateProgress w) = tasks w"
  "finishedTaskCount (updateProgress w) = finishedTaskCount w"
  "activations (updateProgress w) = activations w"
  by (simp_all add: updateProgress_def split: option.splits)

lemma updateProgress_element:
  "progressElement (updateProgress w) =
   map_option (\<lambda>el. el\<lparr>width := Some (progress_percent w)\<rparr>) (progressElement w)"
  by (simp add: updateProgress_def split: option.splits)

lemma updateProgress_effects:
  "effects (updateProgress w) =
   effects w @ (case progressElement w of None \<Rightarrow> [] | Some el \<Rightarrow> [SetWidth (progress_percent w)])"
  by (simp add: updateProgress_def split: option.splits)

lemma task_register_fields [simp]:
  "tasks (task_register d w) = tasks w @ [d]"
  "start (task_register d w) = (if start w = None then Some (time 1000) else start w)"
  "finishedTaskCount (task_register d w) = finishedTaskCount w"
  "activations (task_register d w) = activations w"
  "progressElement (task_register d w) = progressElement w"
  "effects (task_register d w) = effects w"
  by (simp_all add: task_register_def Let_def)

lemma task_call_fields [simp]:
  "tasks (task_call d dur n w) = tasks w @ [d]"
  "start (task_call d dur n w) = (if start w = None then Some (time 1000) else start w)"
  "finishedTaskCount (task_call d dur n w) = finishedTaskCount w"
  "activations (task_call d dur n w) = activations w @ [suspended_call d dur n]"
  by (simp_all add: task_call_def Let_def)

lemma task_call_effects:
  "effects (task_call d dur n w) =
   effects w @ (case progressElement w of
                  None \<Rightarrow> []
                | Some el \<Rightarrow> [SetWidth (progress_percent (task_register d w))])"
  by (simp add: task_call_def Let_def updateProgress_effects)

lemma task_call_element:
  "progressElement (task_call d dur n w) =
   map_option (\<lambda>el. el\<lparr>width := Some (progress_percent (task_register d w))\<rparr>) (progressElement w)"
  by (simp add: task_call_def Let_def updateProgress_element)

lemma suspended_call_fields [simp]:
  "description (suspended_call d dur n) = d"
  "pc (suspended_call d dur n) = AwaitAfter"
  "after (suspended_call d dur n) = replicate n Pending"
  "waitFor (suspended_call d dur n) = (if 0 < n then Pending else Fulfilled [])"
  "task_start (suspended_call d dur n) = None"
  by (simp_all add: suspended_call_def)

lemma task_finish_fields [simp]:
  "tasks (task_finish a w) = remove1 (description a) (tasks w)"
  "finishedTaskCount (task_finish a w) = finishedTaskCount w + 1"
  "start (task_finish a w) = start w"
  "activations (task_finish a w) = activations w"
  "progressElement (task_finish a w) = progressElement w"
proof -
  have "tasks (task_finish a w) =
        (if indexOf (tasks w) (description a) \<noteq> - 1
         then splice (tasks w) (indexOf (tasks w) (description a)) 1 else tasks w)"
    by (simp add: task_finish_def Let_def)
  then show "tasks (task_finish a w) = remove1 (description a) (tasks w)"
    by (simp only: splice_indexOf)
qed (simp_all add: task_finish_def Let_def)

lemma task_success_fields [simp]:
  "tasks (snd (task_success a v w)) = remove1 (description a) (tasks w)"
  "finishedTaskCount (snd (task_success a v w)) = finishedTaskCount w + 1"
  "start (snd (task_success a v w)) =
     (if remove1 (description a) (tasks w) = [] then None else start w)"
  "activations (snd (task_success a v w)) = activations w"
  "fst (task_success a v w) = a\<lparr>pc := Returned v\<rparr>"
  by (simp_all add: task_success_def Let_def)

lemma task_catch_fields [simp]:
  "tasks (snd (task_catch a e w)) = tasks w"
  "finishedTaskCount (snd (task_catch a e w)) = finishedTaskCount w"
  "start (snd (task_catch a e w)) = start w"
  "activations (snd (task_catch a e w)) = activations w"
  "fst (task_catch a e w) = a\<lparr>pc := Thrown e\<rparr>"
  by (simp_all add: task_catch_def Let_def split: option.splits)

lemma task_catch_element:
  "progressElement (snd (task_catch a e w)) =
   map_option (\<lambda>el. el\<lparr>backgroundColor := Some ''red''\<rparr>) (progressElement w)"
  by (simp add: task_catch_def Let_def split: option.splits)

lemma task_catch_effects:
  "effects (snd (task_catch a e w)) =
   effects w @
   LogError (''Failed '' @ [CHR 0x22] @ description a @ [CHR 0x22])
     [Duration (task_start a), ErrorField e] #
   (case progressElement w of None \<Rightarrow> [] | Some el \<Rightarrow> [SetBackgroundColor ''red''])"
  by (simp add: task_catch_def Let_def split: option.splits)

lemma put_fields [simp]:
  "tasks (put i aw) = tasks (snd aw)"
  "finishedTaskCount (put i aw) = finishedTaskCount (snd aw)"
  "start (put i aw) = start (snd aw)"
  "progressElement (put i aw) = progressElement (snd aw)"
  "effects (put i aw) = effects (snd aw)"
  "activations (put i aw) = (activations (snd aw))[i := fst aw]"
  by (simp_all add: put_def)

lemma settle_after_fields [simp]:
  "description (settle_after a k r) = description a"
  "pc (settle_after a k r) = pc a"
  "duration (settle_after a k r) = duration a"
  "task_start (settle_after a k r) = task_start a"
  "after (settle_after a k r) = (after a)[k := r]"
  by (simp_all add: settle_after_def Let_def)

text \<open>A resumption from line 137 is the \<open>catch\<close> block or lines 138 to 140.\<close>

lemma task_resume_Some:
  "task_resume a w = Some aw \<Longrightarrow>
   (\<exists>e. waitFor a = Rejected e \<and> aw = task_catch a e w) \<or>
   (\<exists>vs. waitFor a = Fulfilled vs \<and>
      aw = (a\<lparr>task_start := Some (time (duration a)), pc := AwaitTask vs\<rparr>,
            w\<lparr>effects := effects w @ [LogInfo (description a) []]\<rparr>))"
  by (auto simp: task_resume_def split: promise.splits)

lemma task_resume_fields:
  assumes "task_resume a w = Some aw"
  shows "tasks (snd aw) = tasks w" "finishedTaskCount (snd aw) = finishedTaskCount w"
    "start (snd aw) = start w" "activations (snd aw) = activations w"
    "description (fst aw) = description a" "unfinished (fst aw)"
  using task_resume_Some[OF assms] by (auto simp: unfinished_def)

subsection \<open>The invariant\<close>

lemma unfinished_calls_append:
  "activations w' = activations w @ [a] \<Longrightarrow>
   unfinished_calls w' x = unfinished_calls w x + (if description a = x \<and> unfinished a then 1 else 0)"
  by (simp add: unfinished_calls_def)

lemma unfinished_calls_update:
  assumes "activations w' = (activations w)[i := a']" and "i < length (activations w)"
  shows "unfinished_calls w' x +
           (if description (activations w ! i) = x \<and> unfinished (activations w ! i) then 1 else 0) =
         unfinished_calls w x + (if description a' = x \<and> unfinished a' then 1 else 0)"
  using length_filter_update[OF assms(2), of "\<lambda>a. description a = x \<and> unfinished a" a'] assms(1)
  by (simp add: unfinished_calls_def)

lemma unfinished_calls_same:
  assumes "activations w' = (activations w)[i := a']" and "i < length (activations w)"
    and "description a' = description (activations w ! i)"
    and "unfinished a' = unfinished (activations w ! i)"
  shows "unfinished_calls w' x = unfinished_calls w x"
  using unfinished_calls_update[OF assms(1,2), of x] assms(3,4) by (simp split: if_splits)

lemma unfinished_in_tasks:
  assumes "task_invariant w" and "i < length (activations w)" and "unfinished (activations w ! i)"
  shows "description (activations w ! i) \<in> set (tasks w)"
proof -
  let ?a = "activations w ! i"
  have "?a \<in> set (filter (\<lambda>a. description a = description ?a \<and> unfinished a) (activations w))"
    using assms(2,3) by simp
  then have "0 < unfinished_calls w (description ?a)"
    unfolding unfinished_calls_def by (rule length_pos_if_in_set)
  with assms(1) have "0 < count_list (tasks w) (description ?a)"
    by (simp add: task_invariant_def)
  then show ?thesis by (cases "description ?a \<in> set (tasks w)") (simp_all add: count_list_0_iff)
qed

lemma task_invariant_new: "task_invariant (new_Client fill)"
  by (simp add: task_invariant_def new_Client_def unfinished_calls_def)

lemma task_invariant_Call:
  assumes "task_invariant w"
  shows "task_invariant (task_call d dur n w)"
  using assms unfinished_calls_append[of "task_call d dur n w" w "suspended_call d dur n"]
  by (auto simp: task_invariant_def unfinished_def)

lemma task_invariant_same:
  assumes "task_invariant w" and "tasks w' = tasks w" and "start w' = start w"
    and "finishedTaskCount w' = finishedTaskCount w"
    and "activations w' = (activations w)[i := a']" and "i < length (activations w)"
    and "description a' = description (activations w ! i)"
    and "unfinished a' = unfinished (activations w ! i)"
  shows "task_invariant w'"
  using assms(1-4) unfinished_calls_same[OF assms(5-8)] by (simp add: task_invariant_def)

lemma task_invariant_success:
  assumes inv: "task_invariant w" and i: "i < length (activations w)"
    and pc: "pc (activations w ! i) = AwaitTask args"
  shows "task_invariant (put i (task_success (activations w ! i) v w))"
proof -
  let ?a = "activations w ! i" and ?w' = "put i (task_success (activations w ! i) v w)"
  have unf: "unfinished ?a" using pc by (simp add: unfinished_def)
  have mem: "description ?a \<in> set (tasks w)" by (rule unfinished_in_tasks[OF inv i unf])
  have acts: "activations ?w' = (activations w)[i := ?a\<lparr>pc := Returned v\<rparr>]" by simp
  have cnt: "count_list (tasks ?w') x = unfinished_calls ?w' x" for x
  proof -
    have "unfinished_calls ?w' x + (if description ?a = x then 1 else 0) = unfinished_calls w x"
      using unfinished_calls_update[OF acts i, of x] unf by (simp add: unfinished_def)
    moreover have "count_list (tasks ?w') x = count_list (tasks w) x - (if x = description ?a then 1 else 0)"
      using mem by (simp add: count_list_remove1)
    moreover have "count_list (tasks w) x = unfinished_calls w x"
      using inv by (simp add: task_invariant_def)
    ultimately show ?thesis by (auto split: if_splits)
  qed
  have "start w \<noteq> None" using inv mem by (auto simp: task_invariant_def)
  then have "start ?w' = None \<longleftrightarrow> tasks ?w' = []" by simp
  moreover have "0 \<le> finishedTaskCount ?w'" using inv by (simp add: task_invariant_def)
  ultimately show ?thesis using cnt by (simp add: task_invariant_def)
qed

lemma task_invariant_step:
  assumes "task_invariant w" and "step w ev = Some w'"
  shows "task_invariant w'"
proof (cases ev)
  case (Call d dur n)
  with assms show ?thesis by (auto simp: task_invariant_Call)
next
  case (AfterFulfils i k v)
  with assms(2) have i: "i < length (activations w)"
    and w': "w' = w\<lparr>activations := (activations w)[i := settle_after (activations w ! i) k (Fulfilled v)]\<rparr>"
    by (auto simp: dependency_pending_def split: if_splits)
  show ?thesis
    by (rule task_invariant_same[OF assms(1) _ _ _ _ i, where a' = "settle_after (activations w ! i) k (Fulfilled v)"])
       (simp_all add: w' unfinished_def)
next
  case (AfterRejects i k e)
  with assms(2) have i: "i < length (activations w)"
    and w': "w' = w\<lparr>activations := (activations w)[i := settle_after (activations w ! i) k (Rejected e)]\<rparr>"
    by (auto simp: dependency_pending_def split: if_splits)
  show ?thesis
    by (rule task_invariant_same[OF assms(1) _ _ _ _ i, where a' = "settle_after (activations w ! i) k (Rejected e)"])
       (simp_all add: w' unfinished_def)
next
  case (Resume i)
  with assms(2) obtain aw where i: "i < length (activations w)"
    and pc: "pc (activations w ! i) = AwaitAfter"
    and aw: "task_resume (activations w ! i) w = Some aw" and w': "w' = put i aw"
    by (auto split: if_splits)
  have "unfinished (activations w ! i)" using pc by (simp add: unfinished_def)
  then show ?thesis
    using task_resume_fields[OF aw]
    by (intro task_invariant_same[OF assms(1) _ _ _ _ i, where a' = "fst aw"]) (simp_all add: w')
next
  case (TaskFulfils i v)
  with assms(2) obtain args where i: "i < length (activations w)"
    and pc: "pc (activations w ! i) = AwaitTask args"
    and w': "w' = put i (task_success (activations w ! i) v w)"
    by (auto split: if_splits pc.splits)
  show ?thesis unfolding w' by (rule task_invariant_success[OF assms(1) i pc])
next
  case (TaskRejects i e)
  with assms(2) obtain args where i: "i < length (activations w)"
    and pc: "pc (activations w ! i) = AwaitTask args"
    and w': "w' = put i (task_catch (activations w ! i) e w)"
    by (auto split: if_splits pc.splits)
  show ?thesis
    by (rule task_invariant_same[OF assms(1) _ _ _ _ i, where a' = "(activations w ! i)\<lparr>pc := Thrown e\<rparr>"])
       (simp_all add: w' unfinished_def pc)
qed

lemma task_invariant_run:
  "task_invariant w \<Longrightarrow> run w evs = Some w' \<Longrightarrow> task_invariant w'"
proof (induction evs arbitrary: w)
  case Nil
  then show ?case by simp
next
  case (Cons ev evs)
  then show ?case by (auto split: option.splits dest: task_invariant_step)
qed

lemma task_invariant_reachable:
  "run (new_Client fill) evs = Some w \<Longrightarrow> task_invariant w"
  by (rule task_invariant_run[OF task_invariant_new])

lemma remove1_first:
  "x \<in> set xs \<Longrightarrow>
   \<exists>k < length xs. xs ! k = x \<and> x \<notin> set (take k xs) \<and> remove1 x xs = take k xs @ drop (Suc k) xs"
  using indexOf_from_present[of x xs 0] by blast

lemma step_TaskFulfils:
  assumes "step w (TaskFulfils i v) = Some w'"
  shows "i < length (activations w)" "\<exists>args. pc (activations w ! i) = AwaitTask args"
    "w' = put i (task_success (activations w ! i) v w)"
  using assms by (auto split: if_splits pc.splits)

lemma step_fails:
  assumes "step w ev = Some w'" and "fails w ev i e"
  shows "i < length (activations w)" "unfinished (activations w ! i)"
    "w' = put i (task_catch (activations w ! i) e w)"
  using assms
  by (auto simp: fails_def unfinished_def task_resume_def split: if_splits pc.splits)

text \<open>
  C9. Whenever a call of \<open>task\<close> reaches its success path (its work function's promise is
  fulfilled and the call resumes at line 141), the pending list holds its description:
  \<open>indexOf\<close> does not return \<open>-1\<close>, so the branch that skips \<open>splice\<close> is never taken, and
  the list gets shorter by exactly one entry. This holds after any run from a new client,
  whatever the descriptions (duplicates included), the interleaving and the earlier
  failures.
\<close>

theorem success_finds_description:
  assumes "run (new_Client fill) evs = Some w" and "step w (TaskFulfils i v) = Some w'"
  shows "description (activations w ! i) \<in> set (tasks w) \<and>
         indexOf (tasks w) (description (activations w ! i)) \<noteq> - 1 \<and>
         0 \<le> indexOf (tasks w) (description (activations w ! i)) \<and>
         indexOf (tasks w) (description (activations w ! i)) < int (length (tasks w)) \<and>
         length (tasks w') + 1 = length (tasks w)"
proof -
  let ?d = "description (activations w ! i)"
  note s = step_TaskFulfils[OF assms(2)]
  have inv: "task_invariant w" by (rule task_invariant_reachable[OF assms(1)])
  have "unfinished (activations w ! i)" using s(2) by (auto simp: unfinished_def)
  then have mem: "?d \<in> set (tasks w)" by (rule unfinished_in_tasks[OF inv s(1)])
  from indexOf_from_present[OF mem, of 0] obtain k where
    "k < length (tasks w)" "indexOf (tasks w) ?d = int k" by (auto simp: indexOf_def)
  moreover have "length (tasks w') + 1 = length (tasks w)"
    using mem by (simp add: s(3) length_remove1) (cases "tasks w"; simp)
  ultimately show ?thesis using mem by simp
qed

theorem success_finds_description_witness:
  "\<exists>w w'. run (new_Client None) [Call ''A'' None 0, Call ''A'' None 1, Resume 0, TaskRejects 0 ''x'',
             AfterFulfils 1 0 (5::nat), Resume 1] = Some w \<and>
     step w (TaskFulfils 1 7) = Some w' \<and>
     description (activations w ! 1) \<in> set (tasks w) \<and>
     indexOf (tasks w) (description (activations w ! 1)) \<noteq> - 1 \<and>
     length (tasks w') + 1 = length (tasks w)"
proof -
  define w :: "(nat, string) world" where
    "w = the (run (new_Client None) [Call ''A'' None 0, Call ''A'' None 1, Resume 0,
           TaskRejects 0 ''x'', AfterFulfils 1 0 5, Resume 1])"
  define w' where "w' = the (step w (TaskFulfils 1 7))"
  have r: "run (new_Client None) [Call ''A'' None 0, Call ''A'' None 1, Resume 0,
           TaskRejects 0 ''x'', AfterFulfils 1 0 5, Resume 1] = Some w"
    unfolding w_def by (simp add: exec)
  have s: "step w (TaskFulfils 1 7) = Some w'"
    unfolding w'_def w_def by (simp add: exec)
  from success_finds_description[OF r s] r s show ?thesis by blast
qed

subsection \<open>What each event does to each field\<close>

lemma step_Resume:
  assumes "step w (Resume i) = Some w'"
  obtains aw where "i < length (activations w)" "pc (activations w ! i) = AwaitAfter"
    "task_resume (activations w ! i) w = Some aw" "w' = put i aw"
  using assms by (auto split: if_splits)

lemma step_TaskRejects:
  assumes "step w (TaskRejects i e) = Some w'"
  shows "i < length (activations w)" "\<exists>args. pc (activations w ! i) = AwaitTask args"
    "w' = put i (task_catch (activations w ! i) e w)"
  using assms by (auto split: if_splits pc.splits)

lemma step_After:
  assumes "step w ev = Some w'" and "ev = AfterFulfils i k v \<and> r = Fulfilled v \<or> ev = AfterRejects i k e \<and> r = Rejected e"
  shows "i < length (activations w)" "k < length (after (activations w ! i))"
    "after (activations w ! i) ! k = Pending"
    "w' = w\<lparr>activations := (activations w)[i := settle_after (activations w ! i) k r]\<rparr>"
  using assms by (auto simp: dependency_pending_def split: if_splits)

lemma step_Resume_fields:
  assumes "step w (Resume i) = Some w'"
  shows "tasks w' = tasks w" "finishedTaskCount w' = finishedTaskCount w" "start w' = start w"
    "length (activations w') = length (activations w)"
proof -
  from assms obtain aw where aw: "task_resume (activations w ! i) w = Some aw" "w' = put i aw"
    by (rule step_Resume)
  show "tasks w' = tasks w" "finishedTaskCount w' = finishedTaskCount w" "start w' = start w"
    "length (activations w') = length (activations w)"
    using task_resume_fields[OF aw(1)] by (simp_all add: aw(2))
qed

lemma step_tasks:
  assumes "step w ev = Some w'"
  shows "tasks w' =
     (case ev of
        Call d dur n \<Rightarrow> tasks w @ [d]
      | TaskFulfils i v \<Rightarrow> remove1 (description (activations w ! i)) (tasks w)
      | _ \<Rightarrow> tasks w)"
proof (cases ev)
  case (Resume i)
  with assms show ?thesis by (simp only: event.case step_Resume_fields)
qed (use assms in \<open>auto simp: dependency_pending_def split: if_splits pc.splits\<close>)


lemma step_start:
  assumes "step w ev = Some w'"
  shows "start w' =
     (case ev of
        Call d dur n \<Rightarrow> (if start w = None then Some (time 1000) else start w)
      | TaskFulfils i v \<Rightarrow> (if tasks w' = [] then None else start w)
      | _ \<Rightarrow> start w)"
proof (cases ev)
  case (Resume i)
  with assms show ?thesis by (simp only: event.case step_Resume_fields)
qed (use assms in \<open>auto simp: dependency_pending_def split: if_splits pc.splits\<close>)


text \<open>
  C1. After any run from a new client: when the work function's promise of a call is
  fulfilled, the first entry of the pending list equal to the call's description (found
  by value, whichever call put it there) is removed and no other, so the list is one
  entry shorter, and \<open>finishedTaskCount\<close> grows by one; when the call fails (its work
  function's promise or its dependency wait rejects), the pending list and
  \<open>finishedTaskCount\<close> are as before the failure, and the list still holds the
  description.
\<close>

theorem task_outcome_bookkeeping:
  assumes "run (new_Client fill) evs = Some w" and "step w ev = Some w'"
  shows "(ev = TaskFulfils i v \<longrightarrow>
            (\<exists>k < length (tasks w).
               tasks w ! k = description (activations w ! i) \<and>
               description (activations w ! i) \<notin> set (take k (tasks w)) \<and>
               tasks w' = take k (tasks w) @ drop (Suc k) (tasks w)) \<and>
            length (tasks w') + 1 = length (tasks w) \<and>
            count_list (tasks w') (description (activations w ! i)) + 1 =
              count_list (tasks w) (description (activations w ! i)) \<and>
            finishedTaskCount w' = finishedTaskCount w + 1) \<and>
         (fails w ev i e \<longrightarrow>
            description (activations w ! i) \<in> set (tasks w') \<and>
            tasks w' = tasks w \<and>
            finishedTaskCount w' = finishedTaskCount w)"
proof (intro conjI impI)
  let ?d = "description (activations w ! i)"
  have inv: "task_invariant w" by (rule task_invariant_reachable[OF assms(1)])
  {
    assume ev: "ev = TaskFulfils i v"
    note s = step_TaskFulfils[OF assms(2)[unfolded ev]]
    have "unfinished (activations w ! i)" using s(2) by (auto simp: unfinished_def)
    then have mem: "?d \<in> set (tasks w)" by (rule unfinished_in_tasks[OF inv s(1)])
    have t: "tasks w' = remove1 ?d (tasks w)" by (simp add: s(3))
    from remove1_first[OF mem] t
    show "\<exists>k < length (tasks w). tasks w ! k = ?d \<and> ?d \<notin> set (take k (tasks w)) \<and>
            tasks w' = take k (tasks w) @ drop (Suc k) (tasks w)" by simp
    show "length (tasks w') + 1 = length (tasks w)"
      using mem by (simp add: t length_remove1) (cases "tasks w"; simp)
    have "count_list (tasks w) ?d \<noteq> 0"
      using mem by (simp add: count_list_0_iff)
    then show "count_list (tasks w') ?d + 1 = count_list (tasks w) ?d"
      using mem by (simp add: t count_list_remove1)
    show "finishedTaskCount w' = finishedTaskCount w + 1" by (simp add: s(3))
  }
  {
    assume f: "fails w ev i e"
    note s = step_fails[OF assms(2) f]
    show "tasks w' = tasks w" by (simp add: s(3))
    then show "?d \<in> set (tasks w')" using unfinished_in_tasks[OF inv s(1,2)] by simp
    show "finishedTaskCount w' = finishedTaskCount w" by (simp add: s(3))
  }
qed

theorem task_outcome_bookkeeping_witness:
  "\<exists>w w1 w2.
     run (new_Client None) [Call ''A'' None 0, Call ''B'' None 1, Call ''A'' None 0,
       Resume 0, Resume 2, AfterRejects 1 0 ''net down''] = Some w \<and>
     step w (TaskFulfils 2 (7::nat)) = Some w1 \<and>
     tasks w = [''A'', ''B'', ''A''] \<and> tasks w1 = [''B'', ''A''] \<and>
     finishedTaskCount w1 = finishedTaskCount w + 1 \<and>
     step w (Resume 1) = Some w2 \<and> fails w (Resume 1) 1 ''net down'' \<and>
     tasks w2 = tasks w \<and> description (activations w ! 1) \<in> set (tasks w2) \<and>
     finishedTaskCount w2 = finishedTaskCount w"
proof -
  define w :: "(nat, string) world" where
    "w = the (run (new_Client None) [Call ''A'' None 0, Call ''B'' None 1, Call ''A'' None 0,
       Resume 0, Resume 2, AfterRejects 1 0 ''net down''])"
  define w1 where "w1 = the (step w (TaskFulfils 2 7))"
  define w2 where "w2 = the (step w (Resume 1))"
  have r: "run (new_Client None) [Call ''A'' None 0, Call ''B'' None 1, Call ''A'' None 0,
       Resume 0, Resume 2, AfterRejects 1 0 ''net down''] = Some w"
    unfolding w_def by (simp add: exec)
  have s1: "step w (TaskFulfils 2 7) = Some w1"
    unfolding w1_def w_def by (simp add: exec)
  have s2: "step w (Resume 1) = Some w2"
    unfolding w2_def w_def by (simp add: exec)
  have f: "fails w (Resume 1) 1 ''net down''"
    unfolding w_def by (simp add: exec fails_def)
  have t: "tasks w = [''A'', ''B'', ''A'']" "tasks w1 = [''B'', ''A'']"
    unfolding w1_def w_def by (simp_all add: exec)
  have c1: "finishedTaskCount w1 = finishedTaskCount w + 1"
    using task_outcome_bookkeeping[OF r s1, where i = 2 and v = 7] by blast
  have c2: "tasks w2 = tasks w \<and> description (activations w ! 1) \<in> set (tasks w2) \<and>
     finishedTaskCount w2 = finishedTaskCount w"
    using task_outcome_bookkeeping[OF r s2, where i = 1 and e = "''net down''"] f by blast
  show ?thesis using r s1 s2 f t c1 c2 by blast
qed

lemma step_activations:
  assumes "step w ev = Some w'"
  shows "activations w' =
     (case ev of
        Call d dur n \<Rightarrow> activations w @ [suspended_call d dur n]
      | AfterFulfils i k v \<Rightarrow> (activations w)[i := settle_after (activations w ! i) k (Fulfilled v)]
      | AfterRejects i k e \<Rightarrow> (activations w)[i := settle_after (activations w ! i) k (Rejected e)]
      | Resume i \<Rightarrow> (activations w)[i := fst (the (task_resume (activations w ! i) w))]
      | TaskFulfils i v \<Rightarrow> (activations w)[i := (activations w ! i)\<lparr>pc := Returned v\<rparr>]
      | TaskRejects i e \<Rightarrow> (activations w)[i := (activations w ! i)\<lparr>pc := Thrown e\<rparr>])"
proof (cases ev)
  case (Resume i)
  from assms[unfolded Resume] obtain aw where
    aw: "task_resume (activations w ! i) w = Some aw" "w' = put i aw"
    by (rule step_Resume)
  show ?thesis using task_resume_fields(4)[OF aw(1)] by (simp add: Resume aw)
qed (use assms in \<open>auto simp: dependency_pending_def split: if_splits pc.splits\<close>)







text \<open>
  C5. After any run from a new client, the session timer is set exactly while the pending
  list is not empty. A call sets it when it is unset and leaves it alone otherwise, and
  nothing else sets it. It is cleared exactly by a successful completion after which the
  list is empty, so it is unset whenever the list goes from non-empty to empty.
\<close>

theorem session_timer_follows_pending_list:
  assumes "run (new_Client fill) evs = Some w" and "step w ev = Some w'"
  shows "(start w \<noteq> None \<longleftrightarrow> tasks w \<noteq> []) \<and>
         (ev = Call d dur n \<longrightarrow>
            start w' = (if start w = None then Some (time 1000) else start w)) \<and>
         (start w = None \<and> start w' \<noteq> None \<longrightarrow> (\<exists>d dur n. ev = Call d dur n)) \<and>
         ((start w \<noteq> None \<and> start w' = None) \<longleftrightarrow>
            ((\<exists>i v. ev = TaskFulfils i v) \<and> tasks w' = [])) \<and>
         (tasks w \<noteq> [] \<and> tasks w' = [] \<longrightarrow> start w' = None)"
proof -
  have inv: "task_invariant w" by (rule task_invariant_reachable[OF assms(1)])
  have inv': "task_invariant w'" by (rule task_invariant_step[OF inv assms(2)])
  have a: "start w \<noteq> None \<longleftrightarrow> tasks w \<noteq> []" using inv by (simp add: task_invariant_def)
  have a': "start w' \<noteq> None \<longleftrightarrow> tasks w' \<noteq> []" using inv' by (simp add: task_invariant_def)
  have b: "ev = Call d dur n \<longrightarrow> start w' = (if start w = None then Some (time 1000) else start w)"
    using step_start[OF assms(2)] by auto
  have c: "start w = None \<and> start w' \<noteq> None \<longrightarrow> (\<exists>d dur n. ev = Call d dur n)"
    using step_start[OF assms(2)] by (cases ev) (auto split: if_splits)
  have d1: "start w \<noteq> None \<and> start w' = None \<longrightarrow> (\<exists>i v. ev = TaskFulfils i v) \<and> tasks w' = []"
    using step_start[OF assms(2)] a' by (cases ev) (auto split: if_splits)
  have d2: "(\<exists>i v. ev = TaskFulfils i v) \<and> tasks w' = [] \<longrightarrow> start w \<noteq> None \<and> start w' = None"
  proof
    assume h: "(\<exists>i v. ev = TaskFulfils i v) \<and> tasks w' = []"
    then obtain i v where ev: "ev = TaskFulfils i v" by blast
    from step_TaskFulfils[OF assms(2)[unfolded ev]]
    have "i < length (activations w)" "unfinished (activations w ! i)"
      by (auto simp: unfinished_def)
    from unfinished_in_tasks[OF inv this] have "tasks w \<noteq> []" by auto
    with a a' h show "start w \<noteq> None \<and> start w' = None" by simp
  qed
  have e: "tasks w \<noteq> [] \<and> tasks w' = [] \<longrightarrow> start w' = None" using a' by blast
  from a b c d1 d2 e show ?thesis by blast
qed

theorem session_timer_follows_pending_list_witness:
  "\<exists>w w1 w2.
     run (new_Client None :: (nat, string) world) [Call ''A'' None 0, Resume 0] = Some w \<and>
     step w (TaskFulfils 0 (7::nat)) = Some w1 \<and>
     start w = Some (Time 1000) \<and> tasks w = [''A''] \<and> tasks w1 = [] \<and> start w1 = None \<and>
     step w1 (Call ''B'' (Some 20) 0) = Some w2 \<and> start w2 = Some (time 1000)"
proof -
  define w :: "(nat, string) world" where
    "w = the (run (new_Client None) [Call ''A'' None 0, Resume 0])"
  define w1 where "w1 = the (step w (TaskFulfils 0 7))"
  define w2 where "w2 = the (step w1 (Call ''B'' (Some 20) 0))"
  have r: "run (new_Client None) [Call ''A'' None 0, Resume 0] = Some w"
    unfolding w_def by (simp add: exec)
  have s1: "step w (TaskFulfils 0 7) = Some w1"
    unfolding w1_def w_def by (simp add: exec)
  have r1: "run (new_Client None) [Call ''A'' None 0, Resume 0, TaskFulfils 0 7] = Some w1"
    unfolding w1_def w_def by (simp add: exec)
  have s2: "step w1 (Call ''B'' (Some 20) 0) = Some w2"
    unfolding w2_def by simp
  have t: "start w = Some (Time 1000)" "tasks w = [''A'']" "tasks w1 = []"
    unfolding w1_def w_def by (simp_all add: exec)
  have c1: "start w1 = None"
    using session_timer_follows_pending_list[OF r s1] t by simp
  have c2: "start w2 = Some (time 1000)"
    using session_timer_follows_pending_list[OF r1 s2, where d = "''B''" and dur = "Some 20" and n = 0] c1
    by simp
  show ?thesis using r s1 s2 t c1 c2 by blast
qed

subsection \<open>Effects\<close>

lemma width_writes_append [simp]:
  "width_writes (xs @ ys) = width_writes xs @ width_writes ys"
  by (induction xs rule: width_writes.induct) simp_all

lemma task_success_effects:
  "effects (snd (task_success a v w)) =
   effects w @
   LogInfo (''Finished '' @ [CHR 0x22] @ description a @ [CHR 0x22]) [Duration (task_start a)] #
   (case progressElement w of
      None \<Rightarrow> []
    | Some el \<Rightarrow> [SetWidth (progress_percent (task_finish a w))]) @
   (if remove1 (description a) (tasks w) = [] then
      [LogInfo ''Finished all queued tasks'' [Duration (start w), Count (finishedTaskCount w + 1)]]
    else [])"
proof -
  have "effects (task_finish a w) =
        effects w @ [LogInfo (''Finished '' @ [CHR 0x22] @ description a @ [CHR 0x22])
                       [Duration (task_start a)]]"
    by (simp add: task_finish_def Let_def)
  then show ?thesis
    by (simp add: task_success_def Let_def updateProgress_effects split: option.splits)
qed

lemma task_success_element:
  "progressElement (snd (task_success a v w)) =
   map_option (\<lambda>el. el\<lparr>width := Some (progress_percent (task_finish a w))\<rparr>) (progressElement w)"
  by (simp add: task_success_def Let_def updateProgress_element)

text \<open>The effects of a step extend the effects so far.\<close>

lemma step_effects:
  assumes "step w ev = Some w'"
  shows "effects w' = effects w @ emitted w w'"
proof -
  have "\<exists>new. effects w' = effects w @ new"
  proof (cases ev)
    case (Call d dur n)
    with assms show ?thesis by (auto simp: task_call_effects)
  next
    case (Resume i)
    from assms[unfolded Resume] obtain aw where
      aw: "task_resume (activations w ! i) w = Some aw" "w' = put i aw"
      by (rule step_Resume)
    from task_resume_Some[OF aw(1)] show ?thesis
      by (auto simp: aw(2) task_catch_effects)
  next
    case (TaskFulfils i v)
    from step_TaskFulfils(3)[OF assms[unfolded TaskFulfils]] show ?thesis
      by (simp add: task_success_effects)
  next
    case (TaskRejects i e)
    from step_TaskRejects(3)[OF assms[unfolded TaskRejects]] show ?thesis
      by (simp add: task_catch_effects)
  qed (use assms in \<open>auto simp: dependency_pending_def split: if_splits\<close>)
  then show ?thesis by (auto simp: emitted_def)
qed

text \<open>The widths a step assigns: one at a call, one at a success, none otherwise.\<close>

lemma step_width_writes:
  assumes "step w ev = Some w'"
  shows "width_writes (emitted w w') =
     (case progressElement w of
        None \<Rightarrow> []
      | Some el \<Rightarrow>
          (case ev of
             Call d dur n \<Rightarrow> [progress_percent (task_register d w)]
           | TaskFulfils i v \<Rightarrow> [progress_percent (task_finish (activations w ! i) w)]
           | _ \<Rightarrow> []))"
proof (cases ev)
  case (Call d dur n)
  with assms show ?thesis
    by (auto simp: emitted_def task_call_effects split: option.splits)
next
  case (Resume i)
  from assms[unfolded Resume] obtain aw where
    aw: "task_resume (activations w ! i) w = Some aw" "w' = put i aw"
    by (rule step_Resume)
  from task_resume_Some[OF aw(1)] show ?thesis
    by (auto simp: Resume emitted_def aw(2) task_catch_effects split: option.splits)
next
  case (TaskFulfils i v)
  from step_TaskFulfils(3)[OF assms[unfolded TaskFulfils]] show ?thesis
    by (simp add: TaskFulfils emitted_def task_success_effects split: option.splits)
next
  case (TaskRejects i e)
  from step_TaskRejects(3)[OF assms[unfolded TaskRejects]] show ?thesis
    by (simp add: TaskRejects emitted_def task_catch_effects split: option.splits)
qed (use assms in \<open>auto simp: emitted_def dependency_pending_def split: if_splits option.splits\<close>)

subsection \<open>The progress\<close>

lemma exponent_bounds:
  assumes "0 < x"
  shows "2 powi exponent x \<le> x" and "x < 2 powi (exponent x + 1)"
proof -
  have "2 powi exponent x \<le> x \<and> x < 2 powi (exponent x + 1)"
  proof (cases "1 \<le> x")
    case True
    let ?n = "\<lfloor>x\<rfloor>"
    have n: "0 < ?n" using True by simp
    from bitlen_bounds[OF n] have b: "2 ^ nat (bitlen ?n - 1) \<le> ?n" "?n < 2 ^ nat (bitlen ?n)" by simp_all
    have b1: "1 \<le> bitlen ?n" using n by (simp add: bitlen_alt_def)
    have e: "exponent x = bitlen ?n - 1" using True by (simp add: exponent_def)
    have "(2::real) powi (bitlen ?n - 1) = 2 ^ nat (bitlen ?n - 1)"
      using b1 by (simp add: power_int_def)
    also have "\<dots> = of_int (2 ^ nat (bitlen ?n - 1))" by simp
    also have "\<dots> \<le> of_int ?n" using b(1) by (simp only: of_int_le_iff)
    also have "\<dots> \<le> x" by simp
    finally have 1: "2 powi exponent x \<le> x" by (simp add: e)
    have "?n + 1 \<le> 2 ^ nat (bitlen ?n)" using b(2) by simp
    then have "real_of_int (?n + 1) \<le> of_int (2 ^ nat (bitlen ?n))" by (simp only: of_int_le_iff)
    moreover have "x < of_int (?n + 1)" by linarith
    ultimately have "x < of_int (2 ^ nat (bitlen ?n))" by linarith
    also have "\<dots> = 2 powi (bitlen ?n)" using b1 by (simp add: power_int_def)
    finally have 2: "x < 2 powi (exponent x + 1)" by (simp add: e)
    from 1 2 show ?thesis ..
  next
    case False
    then have x1: "x < 1" by simp
    let ?c = "\<lceil>1 / x\<rceil>"
    have y: "1 < 1 / x" using assms x1 by simp
    then have c: "0 < ?c - 1" by (simp add: less_ceiling_iff)
    let ?j = "bitlen (?c - 1)"
    from bitlen_bounds[OF c] have b: "2 ^ nat (?j - 1) \<le> ?c - 1" "?c - 1 < 2 ^ nat ?j" by simp_all
    have j1: "1 \<le> ?j" using c by (simp add: bitlen_alt_def)
    have e: "exponent x = - ?j" using False by (simp add: exponent_def)
    have "?c \<le> 2 ^ nat ?j" using b(2) by simp
    then have "real_of_int ?c \<le> of_int (2 ^ nat ?j)" by (simp only: of_int_le_iff)
    then have "real_of_int ?c \<le> 2 ^ nat ?j" by simp
    moreover have "1 / x \<le> of_int ?c" by (rule le_of_int_ceiling)
    ultimately have "1 / x \<le> 2 ^ nat ?j" by (rule order_trans[rotated])
    then have "1 \<le> 2 ^ nat ?j * x" using assms by (simp add: field_simps)
    then have "1 / 2 ^ nat ?j \<le> x" by (simp add: field_simps)
    moreover have "(2::real) powi (- ?j) = 1 / 2 ^ nat ?j"
      using j1 by (simp add: power_int_def field_simps)
    ultimately have 1: "2 powi exponent x \<le> x" by (simp add: e)
    have "real_of_int (2 ^ nat (?j - 1)) \<le> of_int (?c - 1)" using b(1) by (simp only: of_int_le_iff)
    then have "2 ^ nat (?j - 1) \<le> real_of_int (?c - 1)" by simp
    moreover have "real_of_int (?c - 1) < 1 / x" by linarith
    ultimately have "2 ^ nat (?j - 1) < 1 / x" by (rule order_le_less_trans)
    then have "2 ^ nat (?j - 1) * x < 1" using assms by (simp add: field_simps)
    then have "x < 1 / 2 ^ nat (?j - 1)" by (simp add: field_simps)
    moreover have "(2::real) powi (- ?j + 1) = 1 / 2 ^ nat (?j - 1)"
      using j1 by (simp add: power_int_def field_simps)
    ultimately have 2: "x < 2 powi (exponent x + 1)" by (simp add: e)
    from 1 2 show ?thesis ..
  qed
  then show "2 powi exponent x \<le> x" and "x < 2 powi (exponent x + 1)" by simp_all
qed


lemma exponent_less:
  assumes "0 < x" and "x < 2 powi k"
  shows "exponent x < k"
proof (rule ccontr)
  assume "\<not> exponent x < k"
  then have "k \<le> exponent x" by simp
  then have "(2::real) powi k \<le> 2 powi exponent x" by (simp add: power_int_increasing)
  with exponent_bounds(1)[OF assms(1)] assms(2) show False by linarith
qed

lemma round_half_even_nonneg: "0 \<le> x \<Longrightarrow> 0 \<le> round_half_even x"
  by (simp add: round_half_even_def Let_def)

lemma round_half_even_le:
  assumes "x \<le> of_int n"
  shows "round_half_even x \<le> n"
proof (cases "x = of_int n")
  case True
  then show ?thesis by (simp add: round_half_even_def)
next
  case False
  with assms have "x < of_int n" by simp
  then have "\<lfloor>x\<rfloor> < n" by (simp add: floor_less_iff)
  then show ?thesis by (simp add: round_half_even_def Let_def)
qed

lemma binary64_nonneg: "0 \<le> x \<Longrightarrow> 0 \<le> binary64 x"
  by (simp add: binary64_def Let_def round_half_even_nonneg sgn_if)

lemma binary64_le_int:
  assumes "0 \<le> x" and "x \<le> of_int c" and "x < 2 ^ 53"
  shows "binary64 x \<le> of_int c"
proof (cases "x = 0")
  case True
  with assms(2) show ?thesis by (simp add: binary64_def)
next
  case False
  with assms(1) have x: "0 < x" by simp
  let ?e = "exponent x"
  have "x < 2 powi 53" using assms(3) by simp
  from exponent_less[OF x this] have e: "?e \<le> 52" by simp
  define k where "k = nat (52 - ?e)"
  have u: "(2::real) powi (?e - 52) = 1 / 2 ^ k"
    using e by (simp add: k_def power_int_def field_simps)
  have "x / (1 / 2 ^ k) \<le> of_int c / (1 / 2 ^ k)" using assms(2) by (simp add: field_simps)
  also have "\<dots> = of_int (c * 2 ^ k)" by simp
  finally have "round_half_even (x / (1 / 2 ^ k)) \<le> c * 2 ^ k" by (rule round_half_even_le)
  then have "real_of_int (round_half_even (x / (1 / 2 ^ k))) \<le> of_int (c * 2 ^ k)"
    by (simp only: of_int_le_iff)
  then have "of_int (round_half_even (x / (1 / 2 ^ k))) * (1 / 2 ^ k) \<le> real_of_int c"
    by (simp add: field_simps)
  then show ?thesis using x by (simp add: binary64_def Let_def u)
qed

lemma Math_round_percent:
  assumes "0 \<le> a" and "a \<le> b" and "0 < b"
  shows "0 \<le> Math_round (binary64 (binary64 (real_of_int a / real_of_int b) * 100))"
    and "Math_round (binary64 (binary64 (real_of_int a / real_of_int b) * 100)) \<le> 100"
proof -
  let ?q = "binary64 (real_of_int a / real_of_int b)"
  have q0: "0 \<le> real_of_int a / real_of_int b" using assms by simp
  have q1: "real_of_int a / real_of_int b \<le> of_int 1" using assms by simp
  have a0: "0 \<le> ?q" by (rule binary64_nonneg[OF q0])
  have a1: "?q \<le> of_int 1" by (rule binary64_le_int[OF q0 q1]) (use q1 in simp)
  let ?p = "binary64 (?q * 100)"
  have p0: "0 \<le> ?q * 100" using a0 by simp
  have p1: "?q * 100 \<le> of_int 100" using a1 by simp
  have b0: "0 \<le> ?p" by (rule binary64_nonneg[OF p0])
  have b1: "?p \<le> of_int 100" by (rule binary64_le_int[OF p0 p1]) (use p1 in simp)
  show "0 \<le> Math_round ?p" using b0 by (simp add: Math_round_def)
  have "?p + 1 / 2 < 101" using b1 by simp
  then have "\<lfloor>?p + 1 / 2\<rfloor> < 101" by (simp add: floor_less_iff)
  then show "Math_round ?p \<le> 100" by (simp add: Math_round_def)
qed

text \<open>
  The rounding shows: 23 finished tasks of 40 give \<open>57%\<close> and 29 of 200 give \<open>14%\<close>, where
  the exact quotients would give 58 and 15.
\<close>

lemma progress_in_binary64:
  "js_div_times_100_rounded 23 40 = Finite 57"
  "js_div_times_100_rounded 29 200 = Finite 14"
  "js_div_times_100_rounded 1 2 = Finite 50"
  "js_div_times_100_rounded 1 3 = Finite 33"
  "js_div_times_100_rounded 0 0 = NaN"
  by (simp_all add: js_div_times_100_rounded_def Math_round_def binary64_def exponent_def
      round_half_even_def Let_def compute_bitlen)

lemma percentage_progress:
  assumes "0 \<le> finishedTaskCount w" and "1 \<le> progress_denominator w"
  shows "percentage (progress_percent w)"
proof -
  have "finishedTaskCount w \<le> progress_denominator w" by (simp add: progress_denominator_def)
  with assms Math_round_percent[of "finishedTaskCount w" "progress_denominator w"]
  show ?thesis
    by (simp add: percentage_def progress_percent_def js_div_times_100_rounded_def)
qed

lemma progress_at_register:
  assumes "0 \<le> finishedTaskCount w"
  shows "1 \<le> progress_denominator (task_register d w)"
    and "percentage (progress_percent (task_register d w))"
proof -
  show 1: "1 \<le> progress_denominator (task_register d w)"
    using assms by (simp add: progress_denominator_def)
  show "percentage (progress_percent (task_register d w))"
    by (rule percentage_progress[OF _ 1]) (simp add: assms)
qed

lemma progress_at_finish:
  assumes "0 \<le> finishedTaskCount w"
  shows "1 \<le> progress_denominator (task_finish a w)"
    and "percentage (progress_percent (task_finish a w))"
proof -
  show 1: "1 \<le> progress_denominator (task_finish a w)"
    using assms by (simp add: progress_denominator_def)
  show "percentage (progress_percent (task_finish a w))"
    by (rule percentage_progress[OF _ 1]) (simp add: assms)
qed

lemma widths_percentages_step:
  assumes "task_invariant w" and "step w ev = Some w'"
    and "list_all percentage (width_writes (effects w))"
  shows "list_all percentage (width_writes (effects w'))"
proof -
  have fin: "0 \<le> finishedTaskCount w" using assms(1) by (simp add: task_invariant_def)
  have "list_all percentage (width_writes (emitted w w'))"
    unfolding step_width_writes[OF assms(2)]
    using progress_at_register(2)[OF fin] progress_at_finish(2)[OF fin]
    by (simp split: option.splits event.splits)
  with assms(3) show ?thesis by (simp add: step_effects[OF assms(2)])
qed

lemma widths_percentages_run:
  "task_invariant w \<Longrightarrow> list_all percentage (width_writes (effects w)) \<Longrightarrow>
   run w evs = Some w' \<Longrightarrow> list_all percentage (width_writes (effects w'))"
proof (induction evs arbitrary: w)
  case Nil
  then show ?case by simp
next
  case (Cons ev evs)
  from Cons.prems(3) obtain w1 where s: "step w ev = Some w1" and r: "run w1 evs = Some w'"
    by (auto split: option.splits)
  show ?case
    by (rule Cons.IH[OF task_invariant_step[OF Cons.prems(1) s]
          widths_percentages_step[OF Cons.prems(1) s Cons.prems(2)] r])
qed

text \<open>
  C2. After any run from a new client, \<open>finishedTaskCount\<close> and the length of the pending
  list are not negative; at both places where \<open>updateProgress()\<close> is called, after the
  registration of a call and after the bookkeeping of a success, the divisor
  \<open>finishedTaskCount + tasks.length\<close> is at least 1 and the rounded percentage lies between
  0 and 100; and every width ever assigned to the progress element is such a percentage.
  The quotient and its product with 100 are rounded to binary64 as the expression of
  \<open>updateProgress\<close> computes them, so that 22 finished calls and 18 pending ones, one of
  which then succeeds, give 57 percent.
\<close>

theorem progress_is_a_percentage:
  assumes "run (new_Client fill) evs = Some w"
  shows "0 \<le> finishedTaskCount w \<and> 0 \<le> int (length (tasks w)) \<and>
         1 \<le> progress_denominator (task_register d w) \<and>
         percentage (progress_percent (task_register d w)) \<and>
         1 \<le> progress_denominator (task_finish a w) \<and>
         percentage (progress_percent (task_finish a w)) \<and>
         list_all percentage (width_writes (effects w))"
proof -
  have inv: "task_invariant w" by (rule task_invariant_reachable[OF assms])
  then have fin: "0 \<le> finishedTaskCount w" by (simp add: task_invariant_def)
  have "list_all percentage (width_writes (effects w))"
    by (rule widths_percentages_run[OF task_invariant_new _ assms]) (simp add: new_Client_def)
  with fin progress_at_register[OF fin] progress_at_finish[OF fin] show ?thesis by simp
qed

theorem progress_is_a_percentage_witness:
  "\<exists>w w'. run (new_Client (Some \<lparr>width = None, backgroundColor = None\<rparr>) :: (nat, string) world)
          [Call ''A'' (Some 300) 0, Call ''B'' (Some 150) 0, Resume 0, Resume 1, TaskFulfils 1 7]
        = Some w \<and>
     tasks w = [''A''] \<and> finishedTaskCount w = 1 \<and>
     width_writes (effects w) = [Finite 0, Finite 0, Finite 50] \<and>
     0 \<le> finishedTaskCount w \<and>
     1 \<le> progress_denominator (task_register ''C'' w) \<and>
     percentage (progress_percent (task_register ''C'' w)) \<and>
     1 \<le> progress_denominator (task_finish (activations w ! 0) w) \<and>
     percentage (progress_percent (task_finish (activations w ! 0) w)) \<and>
     list_all percentage (width_writes (effects w)) \<and>
     run (new_Client None :: (nat, string) world)
        (replicate 40 (Call ''t'' None 0) @
         concat (map (\<lambda>i. [Resume i, TaskFulfils i 0]) [0..<22]) @ [Resume 22]) = Some w' \<and>
     length (tasks w') = 18 \<and> finishedTaskCount w' = 22 \<and>
     progress_percent (task_finish (activations w' ! 22) w') = Finite 57 \<and>
     1 \<le> progress_denominator (task_finish (activations w' ! 22) w') \<and>
     percentage (progress_percent (task_finish (activations w' ! 22) w'))"
proof -
  define w :: "(nat, string) world" where
    "w = the (run (new_Client (Some \<lparr>width = None, backgroundColor = None\<rparr>))
          [Call ''A'' (Some 300) 0, Call ''B'' (Some 150) 0, Resume 0, Resume 1, TaskFulfils 1 7])"
  have r: "run (new_Client (Some \<lparr>width = None, backgroundColor = None\<rparr>))
          [Call ''A'' (Some 300) 0, Call ''B'' (Some 150) 0, Resume 0, Resume 1, TaskFulfils 1 7]
        = Some w"
    unfolding w_def by (simp add: exec)
  have t: "tasks w = [''A'']" "finishedTaskCount w = 1"
    "width_writes (effects w) = [Finite 0, Finite 0, Finite 50]"
    unfolding w_def by (simp_all add: exec)
  have c: "map_option (\<lambda>w. (length (tasks w), finishedTaskCount w,
                      progress_percent (task_finish (activations w ! 22) w)))
     (run (new_Client None :: (nat, string) world)
        (replicate 40 (Call ''t'' None 0) @
         concat (map (\<lambda>i. [Resume i, TaskFulfils i 0]) [0..<22]) @ [Resume 22]))
   = Some (18, 22, Finite 57)"
    by code_simp
  then obtain w' :: "(nat, string) world" where
    r': "run (new_Client None :: (nat, string) world)
        (replicate 40 (Call ''t'' None 0) @
         concat (map (\<lambda>i. [Resume i, TaskFulfils i 0]) [0..<22]) @ [Resume 22]) = Some w'"
    and t': "length (tasks w') = 18" "finishedTaskCount w' = 22"
      "progress_percent (task_finish (activations w' ! 22) w') = Finite 57"
    by (cases "run (new_Client None :: (nat, string) world)
        (replicate 40 (Call ''t'' None 0) @
         concat (map (\<lambda>i. [Resume i, TaskFulfils i 0]) [0..<22]) @ [Resume 22])")
       (simp_all only: option.map option.distinct option.inject prod.inject)
  from progress_is_a_percentage[OF r, where d = "''C''" and a = "activations w ! 0"]
  have i1: "0 \<le> finishedTaskCount w"
     "1 \<le> progress_denominator (task_register ''C'' w)"
     "percentage (progress_percent (task_register ''C'' w))"
     "1 \<le> progress_denominator (task_finish (activations w ! 0) w)"
     "percentage (progress_percent (task_finish (activations w ! 0) w))"
     "list_all percentage (width_writes (effects w))"
    by blast+
  from progress_is_a_percentage[OF r', where d = "''C''" and a = "activations w' ! 22"]
  have i2: "1 \<le> progress_denominator (task_finish (activations w' ! 22) w')"
     "percentage (progress_percent (task_finish (activations w' ! 22) w'))"
    by blast+
  show ?thesis
    by (rule exI[of _ w], rule exI[of _ w'], intro conjI) (fact r t i1 r' t' i2)+
qed

text \<open>
  C3, as claimed, fails: with a progress element present, the call of Scenario C
  (\<open>load-theme\<close>, no dependencies, the work function rejects with \<open>net down\<close>) emits on its
  failure path the error log and the red background and assigns no width.
\<close>

theorem failure_recomputes_progress_counterexample:
  "map_option (\<lambda>w. map_option (emitted w) (step w (TaskRejects 0 ''net down'')))
     (run (new_Client (Some \<lparr>width = None, backgroundColor = None\<rparr>) :: (nat, string) world)
        [Call ''load-theme'' (Some 100) 0, Resume 0]) =
   Some (Some [LogError (''Failed '' @ [CHR 0x22] @ ''load-theme'' @ [CHR 0x22])
                 [Duration (Some (Time 100)), ErrorField ''net down''],
               SetBackgroundColor ''red'']) \<and>
   map_option (\<lambda>w. recomputes_progress w (TaskRejects 0 ''net down''))
     (run (new_Client (Some \<lparr>width = None, backgroundColor = None\<rparr>) :: (nat, string) world)
        [Call ''load-theme'' (Some 100) 0, Resume 0]) = Some False"
  by (simp add: exec emitted_def recomputes_progress_def)

text \<open>
  C3, amended. With a progress element present, a call of \<open>task\<close> recomputes the progress
  once at its registration and once at its success. A failing call does not recompute it
  on its failure path: that path sets the error marker (the red background) and leaves
  the width as it was.
\<close>

theorem progress_recomputed_at_call_and_success_only:
  assumes "step w ev = Some w'" and "progressElement w = Some el"
  shows "(ev = Call d dur n \<longrightarrow>
            recomputes_progress w ev \<and>
            width_writes (emitted w w') = [progress_percent (task_register d w)]) \<and>
         (ev = TaskFulfils i v \<longrightarrow>
            recomputes_progress w ev \<and>
            width_writes (emitted w w') = [progress_percent (task_finish (activations w ! i) w)]) \<and>
         (fails w ev i e \<longrightarrow>
            \<not> recomputes_progress w ev \<and>
            SetBackgroundColor ''red'' \<in> set (emitted w w') \<and>
            progressElement w' = Some (el\<lparr>backgroundColor := Some ''red''\<rparr>))"
proof (intro conjI impI)
  note ww = step_width_writes[OF assms(1), unfolded assms(2), simplified]
  {
    assume ev: "ev = Call d dur n"
    show "width_writes (emitted w w') = [progress_percent (task_register d w)]"
      using ww by (simp add: ev)
    then show "recomputes_progress w ev" by (simp add: recomputes_progress_def assms(1))
  }
  {
    assume ev: "ev = TaskFulfils i v"
    show "width_writes (emitted w w') = [progress_percent (task_finish (activations w ! i) w)]"
      using ww by (simp add: ev)
    then show "recomputes_progress w ev" by (simp add: recomputes_progress_def assms(1))
  }
  {
    assume f: "fails w ev i e"
    then have "ev = TaskRejects i e \<or> ev = Resume i" by (auto simp: fails_def)
    then have "width_writes (emitted w w') = []" using ww by auto
    then show "\<not> recomputes_progress w ev" by (simp add: recomputes_progress_def assms(1))
    note s = step_fails[OF assms(1) f]
    show "SetBackgroundColor ''red'' \<in> set (emitted w w')"
      by (simp add: s(3) emitted_def task_catch_effects assms(2))
    show "progressElement w' = Some (el\<lparr>backgroundColor := Some ''red''\<rparr>)"
      by (simp add: s(3) task_catch_element assms(2))
  }
qed

theorem progress_recomputed_at_call_and_success_only_witness:
  "\<exists>w w1 w2 w3.
     run (new_Client (Some \<lparr>width = None, backgroundColor = None\<rparr>) :: (nat, string) world)
       [Call ''load-theme'' (Some 100) 0, Resume 0] = Some w \<and>
     progressElement w = Some \<lparr>width = Some (Finite 0), backgroundColor = None\<rparr> \<and>
     step w (TaskRejects 0 ''net down'') = Some w1 \<and>
     \<not> recomputes_progress w (TaskRejects 0 ''net down'') \<and>
     progressElement w1 = Some \<lparr>width = Some (Finite 0), backgroundColor = Some ''red''\<rparr> \<and>
     step w (TaskFulfils 0 7) = Some w2 \<and> recomputes_progress w (TaskFulfils 0 7) \<and>
     step w (Call ''B'' None 0) = Some w3 \<and> recomputes_progress w (Call ''B'' None 0)"
proof -
  define w :: "(nat, string) world" where
    "w = the (run (new_Client (Some \<lparr>width = None, backgroundColor = None\<rparr>))
       [Call ''load-theme'' (Some 100) 0, Resume 0])"
  define w1 where "w1 = the (step w (TaskRejects 0 ''net down''))"
  define w2 where "w2 = the (step w (TaskFulfils 0 7))"
  define w3 where "w3 = the (step w (Call ''B'' None 0))"
  have r: "run (new_Client (Some \<lparr>width = None, backgroundColor = None\<rparr>))
       [Call ''load-theme'' (Some 100) 0, Resume 0] = Some w"
    unfolding w_def by (simp add: exec)
  have p: "progressElement w = Some \<lparr>width = Some (Finite 0), backgroundColor = None\<rparr>"
    unfolding w_def by (simp add: exec)
  have s1: "step w (TaskRejects 0 ''net down'') = Some w1"
    unfolding w1_def w_def by (simp add: exec)
  have s2: "step w (TaskFulfils 0 7) = Some w2"
    unfolding w2_def w_def by (simp add: exec)
  have s3: "step w (Call ''B'' None 0) = Some w3"
    unfolding w3_def by simp
  have c1: "\<not> recomputes_progress w (TaskRejects 0 ''net down'') \<and>
     progressElement w1 = Some \<lparr>width = Some (Finite 0), backgroundColor = Some ''red''\<rparr>"
    using progress_recomputed_at_call_and_success_only[OF s1 p, where i = 0 and e = "''net down''"]
    by (simp add: fails_def)
  have c2: "recomputes_progress w (TaskFulfils 0 7)"
    using progress_recomputed_at_call_and_success_only[OF s2 p, where i = 0 and v = 7] by blast
  have c3: "recomputes_progress w (Call ''B'' None 0)"
    using progress_recomputed_at_call_and_success_only[OF s3 p, where d = "''B''" and dur = None and n = 0]
    by blast
  show ?thesis using r p s1 s2 s3 c1 c2 c3 by blast
qed

subsection \<open>The constructor's handlers\<close>

lemma on_fulfilled_initialize [simp]: "initialize (on_fulfilled p) = initialize p"
  by (simp add: on_fulfilled_def Let_def split: option.splits)

lemma on_rejected_initialize [simp]: "initialize (on_rejected e p) = initialize p"
  by (simp add: on_rejected_def Let_def split: option.splits)

lemma settle_initialize_settled:
  "initialize p \<noteq> Pending \<Longrightarrow> settle_initialize r p = p"
  by (cases "initialize p") (simp_all add: settle_initialize_def)

lemma settle_initialize_settles:
  "initialize p = Pending \<Longrightarrow> initialize (settle_initialize r p) = r"
  by (cases r) (simp_all add: settle_initialize_def)

lemma fold_settle_initialize_settled:
  "initialize p \<noteq> Pending \<Longrightarrow> fold settle_initialize rs p = p"
  by (induction rs) (simp_all add: settle_initialize_settled)

lemma on_rejected_overlay:
  "overlay p = Some ov \<Longrightarrow>
   overlay (on_rejected e p) =
     Some (ov\<lparr>classList := classList_add (classList ov) ''error'',
              message_child :=
                map_option (\<lambda>m. \<lparr>innerText = ''Failed to load: '' @ message e @ ''.'',
                                  parent_appended = parent_appended m @ [reload_button]\<rparr>)
                  (message_child ov)\<rparr>)"
  by (simp add: on_rejected_def Let_def split: option.splits)

text \<open>
  C7, as claimed, fails: on an overlay that has no \<open>.message\<close> element, a rejection of
  \<open>initialize()\<close> with the message \<open>net down\<close> marks the overlay as errored and then shows no
  message and attaches no reload button.
\<close>

theorem failed_load_shows_message_counterexample:
  "lifecycle (settle_initialize (Rejected (JsError ''net down''))
     (Client_constructor (Some \<lparr>opacity = None, classList = [], removes_on_transitionend = False,
        message_child = None\<rparr>))) = Failed \<and>
   marked_errored (settle_initialize (Rejected (JsError ''net down''))
     (Client_constructor (Some \<lparr>opacity = None, classList = [], removes_on_transitionend = False,
        message_child = None\<rparr>))) \<and>
   displayed_message (settle_initialize (Rejected (JsError ''net down''))
     (Client_constructor (Some \<lparr>opacity = None, classList = [], removes_on_transitionend = False,
        message_child = None\<rparr>))) = None \<and>
   reload_affordances (settle_initialize (Rejected (JsError ''net down''))
     (Client_constructor (Some \<lparr>opacity = None, classList = [], removes_on_transitionend = False,
        message_child = None\<rparr>))) = []"
  by (simp add: lifecycle_def settle_initialize_def Client_constructor_def on_rejected_def
      marked_errored_def displayed_message_def reload_affordances_def classList_add_def Let_def)

lemma settle_rejected:
  "settle_initialize (Rejected e) (Client_constructor ov) =
   on_rejected e ((Client_constructor ov)\<lparr>initialize := Rejected e\<rparr>)"
  by (simp add: settle_initialize_def Client_constructor_def)

lemma settle_fulfilled:
  "settle_initialize (Fulfilled u) (Client_constructor ov) =
   on_fulfilled ((Client_constructor ov)\<lparr>initialize := Fulfilled u\<rparr>)"
  by (simp add: settle_initialize_def Client_constructor_def)

lemma on_rejected_logged:
  "logged (on_rejected e p) =
   logged p @ [LogError (message e) [],
               LogWarn ''Load completed with errors'' [Duration (Some (loadTime p))]]"
  by (simp add: on_rejected_def Let_def split: option.splits)

lemma on_fulfilled_logged:
  "logged (on_fulfilled p) =
   logged p @ [LogInfo ''Load completed'' [Duration (Some (loadTime p))]]"
  by (simp add: on_fulfilled_def Let_def split: option.splits)

lemma on_fulfilled_overlay:
  "overlay (on_fulfilled p) =
   map_option (\<lambda>el. el\<lparr>opacity := Some ''0'', removes_on_transitionend := True\<rparr>) (overlay p)"
  by (simp add: on_fulfilled_def Let_def split: option.splits)

lemma Client_constructor_fields [simp]:
  "overlay (Client_constructor ov) = ov"
  "logged (Client_constructor ov) = [LogInfo ''Loading IDE'' []]"
  "loadTime (Client_constructor ov) = Time 2500"
  by (simp_all add: Client_constructor_def time_def)

lemma on_rejected_no_overlay: "overlay p = None \<Longrightarrow> overlay (on_rejected e p) = None"
  by (simp add: on_rejected_def Let_def)

text \<open>
  C7, amended. A client starts in \<open>Loading\<close>, and of any attempts to settle the promise of
  \<open>initialize()\<close> only the first has an effect: the lifecycle leaves \<open>Loading\<close> once, for
  \<open>Succeeded\<close> on a fulfilment and for \<open>Failed\<close> on a rejection; exactly one of the two
  handlers runs, once, however many attempts follow, as the log shows. When the promise
  rejects with an error whose message is \<open>m\<close> and the overlay exists, the overlay is marked
  as errored; when the overlay also has a \<open>.message\<close> element, that element shows exactly
  \<open>Failed to load: m.\<close> and exactly one reload button is attached beside it. Without the
  overlay there is no overlay afterwards either: nothing is marked, no message is shown and
  no reload button is attached. With an overlay that has no \<open>.message\<close> element the overlay
  is marked as errored and nothing else changes: no message is shown and no reload button
  is attached. A fulfilment only fades the overlay.
\<close>

theorem load_lifecycle_settles_once:
  assumes "r \<noteq> Pending"
  shows "lifecycle (Client_constructor ov) = Loading \<and>
         fold settle_initialize (r # rs) (Client_constructor ov) =
           settle_initialize r (Client_constructor ov) \<and>
         lifecycle (settle_initialize r (Client_constructor ov)) =
           (case r of Fulfilled u \<Rightarrow> Succeeded | _ \<Rightarrow> Failed) \<and>
         (r = Rejected (JsError m) \<and> ov = Some el \<longrightarrow>
            marked_errored (settle_initialize r (Client_constructor ov))) \<and>
         (r = Rejected (JsError m) \<and> ov = Some el \<and> message_child el = Some me \<longrightarrow>
            displayed_message (settle_initialize r (Client_constructor ov)) =
              Some (''Failed to load: '' @ m @ ''.'') \<and>
            reload_affordances (settle_initialize r (Client_constructor ov)) =
              reload_affordances (Client_constructor ov) @ [reload_button]) \<and>
         transitions (Client_constructor ov) = [] \<and>
         transitions (fold settle_initialize (r # rs) (Client_constructor ov)) =
           [case r of Fulfilled u \<Rightarrow> Succeeded | _ \<Rightarrow> Failed] \<and>
         (r = Rejected (JsError m) \<longrightarrow>
            logged (fold settle_initialize (r # rs) (Client_constructor ov)) =
              [LogInfo ''Loading IDE'' [], LogError m [],
               LogWarn ''Load completed with errors'' [Duration (Some (Time 2500))]]) \<and>
         (r = Rejected (JsError m) \<and> ov = None \<longrightarrow>
            overlay (settle_initialize r (Client_constructor ov)) = None \<and>
            \<not> marked_errored (settle_initialize r (Client_constructor ov)) \<and>
            displayed_message (settle_initialize r (Client_constructor ov)) = None \<and>
            reload_affordances (settle_initialize r (Client_constructor ov)) = []) \<and>
         (r = Rejected (JsError m) \<and> ov = Some el \<and> message_child el = None \<longrightarrow>
            overlay (settle_initialize r (Client_constructor ov)) =
              Some (el\<lparr>classList := classList_add (classList el) ''error''\<rparr>) \<and>
            displayed_message (settle_initialize r (Client_constructor ov)) = None \<and>
            reload_affordances (settle_initialize r (Client_constructor ov)) = []) \<and>
         (r = Rejected (JsError m) \<and> ov = Some el \<and> message_child el = Some me \<longrightarrow>
            overlay (settle_initialize r (Client_constructor ov)) =
              Some (el\<lparr>classList := classList_add (classList el) ''error'',
                       message_child := Some
                         \<lparr>innerText = ''Failed to load: '' @ m @ ''.'',
                          parent_appended = parent_appended me @ [reload_button]\<rparr>\<rparr>)) \<and>
         (r = Fulfilled u \<longrightarrow>
            overlay (settle_initialize r (Client_constructor ov)) =
              map_option (\<lambda>el. el\<lparr>opacity := Some ''0'', removes_on_transitionend := True\<rparr>) ov \<and>
            logged (fold settle_initialize (r # rs) (Client_constructor ov)) =
              [LogInfo ''Loading IDE'' [],
               LogInfo ''Load completed'' [Duration (Some (Time 2500))]])"
proof -
  let ?p = "Client_constructor ov"
  have pend: "initialize ?p = Pending" by (simp add: Client_constructor_def)
  have c1: "lifecycle ?p = Loading" by (simp add: lifecycle_def pend)
  have set: "initialize (settle_initialize r ?p) = r" by (rule settle_initialize_settles[OF pend])
  then have "initialize (settle_initialize r ?p) \<noteq> Pending" using assms by simp
  then have c2: "fold settle_initialize (r # rs) ?p = settle_initialize r ?p"
    by (simp add: fold_settle_initialize_settled)
  have c3: "lifecycle (settle_initialize r ?p) =
            (case r of Fulfilled u \<Rightarrow> Succeeded | _ \<Rightarrow> Failed)"
    unfolding lifecycle_def set using assms by (cases r) simp_all
  have c4: "r = Rejected (JsError m) \<and> ov = Some el \<longrightarrow> marked_errored (settle_initialize r ?p)"
  proof
    assume a: "r = Rejected (JsError m) \<and> ov = Some el"
    then have s: "settle_initialize r ?p = on_rejected (JsError m) (?p\<lparr>initialize := r\<rparr>)"
      by (simp add: settle_rejected)
    have o: "overlay (?p\<lparr>initialize := r\<rparr>) = Some el" using a by simp
    show "marked_errored (settle_initialize r ?p)"
      by (simp add: s marked_errored_def on_rejected_overlay[OF o] classList_add_def)
  qed
  have c12: "r = Rejected (JsError m) \<and> ov = Some el \<and> message_child el = Some me \<longrightarrow>
      overlay (settle_initialize r ?p) =
        Some (el\<lparr>classList := classList_add (classList el) ''error'',
                 message_child := Some
                   \<lparr>innerText = ''Failed to load: '' @ m @ ''.'',
                    parent_appended = parent_appended me @ [reload_button]\<rparr>\<rparr>)"
  proof
    assume a: "r = Rejected (JsError m) \<and> ov = Some el \<and> message_child el = Some me"
    then have s: "settle_initialize r ?p = on_rejected (JsError m) (?p\<lparr>initialize := r\<rparr>)"
      by (simp add: settle_rejected)
    have o: "overlay (?p\<lparr>initialize := r\<rparr>) = Some el" using a by simp
    have mc: "message_child el = Some me" using a by simp
    show "overlay (settle_initialize r ?p) =
        Some (el\<lparr>classList := classList_add (classList el) ''error'',
                 message_child := Some
                   \<lparr>innerText = ''Failed to load: '' @ m @ ''.'',
                    parent_appended = parent_appended me @ [reload_button]\<rparr>\<rparr>)"
      unfolding s on_rejected_overlay[OF o] by (simp add: mc)
  qed
  have c5: "r = Rejected (JsError m) \<and> ov = Some el \<and> message_child el = Some me \<longrightarrow>
      displayed_message (settle_initialize r ?p) = Some (''Failed to load: '' @ m @ ''.'') \<and>
      reload_affordances (settle_initialize r ?p) = reload_affordances ?p @ [reload_button]"
  proof
    assume a: "r = Rejected (JsError m) \<and> ov = Some el \<and> message_child el = Some me"
    with c12 have o: "overlay (settle_initialize r ?p) =
        Some (el\<lparr>classList := classList_add (classList el) ''error'',
                 message_child := Some
                   \<lparr>innerText = ''Failed to load: '' @ m @ ''.'',
                    parent_appended = parent_appended me @ [reload_button]\<rparr>\<rparr>)" by blast
    have o': "overlay ?p = Some el" and mc: "message_child el = Some me"
      using a by simp_all
    show "displayed_message (settle_initialize r ?p) = Some (''Failed to load: '' @ m @ ''.'') \<and>
      reload_affordances (settle_initialize r ?p) = reload_affordances ?p @ [reload_button]"
      unfolding displayed_message_def reload_affordances_def o o'
      by (simp add: mc reload_button_def)
  qed
  have c6: "transitions ?p = []" by (simp add: transitions_def)
  have c7: "transitions (fold settle_initialize (r # rs) ?p) =
            [case r of Fulfilled u \<Rightarrow> Succeeded | _ \<Rightarrow> Failed]"
    unfolding c2 using assms
    by (cases r)
       (simp_all add: settle_rejected settle_fulfilled transitions_def on_rejected_logged
          on_fulfilled_logged)
  have c8: "r = Rejected (JsError m) \<longrightarrow>
      logged (fold settle_initialize (r # rs) ?p) =
        [LogInfo ''Loading IDE'' [], LogError m [],
         LogWarn ''Load completed with errors'' [Duration (Some (Time 2500))]]"
    unfolding c2 by (simp add: settle_rejected on_rejected_logged)
  have c9: "r = Rejected (JsError m) \<and> ov = None \<longrightarrow>
      overlay (settle_initialize r ?p) = None \<and>
      \<not> marked_errored (settle_initialize r ?p) \<and>
      displayed_message (settle_initialize r ?p) = None \<and>
      reload_affordances (settle_initialize r ?p) = []"
  proof
    assume a: "r = Rejected (JsError m) \<and> ov = None"
    then have s: "settle_initialize r ?p = on_rejected (JsError m) (?p\<lparr>initialize := r\<rparr>)"
      by (simp add: settle_rejected)
    have "overlay (?p\<lparr>initialize := r\<rparr>) = None" using a by simp
    then have o: "overlay (settle_initialize r ?p) = None"
      unfolding s by (rule on_rejected_no_overlay)
    then show "overlay (settle_initialize r ?p) = None \<and>
      \<not> marked_errored (settle_initialize r ?p) \<and>
      displayed_message (settle_initialize r ?p) = None \<and>
      reload_affordances (settle_initialize r ?p) = []"
      by (simp add: marked_errored_def displayed_message_def reload_affordances_def)
  qed
  have c10: "r = Rejected (JsError m) \<and> ov = Some el \<and> message_child el = None \<longrightarrow>
      overlay (settle_initialize r ?p) =
        Some (el\<lparr>classList := classList_add (classList el) ''error''\<rparr>) \<and>
      displayed_message (settle_initialize r ?p) = None \<and>
      reload_affordances (settle_initialize r ?p) = []"
  proof
    assume a: "r = Rejected (JsError m) \<and> ov = Some el \<and> message_child el = None"
    then have s: "settle_initialize r ?p = on_rejected (JsError m) (?p\<lparr>initialize := r\<rparr>)"
      by (simp add: settle_rejected)
    have o: "overlay (?p\<lparr>initialize := r\<rparr>) = Some el" using a by simp
    have mc: "message_child el = None" using a by simp
    have 1: "overlay (settle_initialize r ?p) =
        Some (el\<lparr>classList := classList_add (classList el) ''error''\<rparr>)"
      unfolding s on_rejected_overlay[OF o] using mc by simp
    then show "overlay (settle_initialize r ?p) =
        Some (el\<lparr>classList := classList_add (classList el) ''error''\<rparr>) \<and>
      displayed_message (settle_initialize r ?p) = None \<and>
      reload_affordances (settle_initialize r ?p) = []"
      by (simp add: displayed_message_def reload_affordances_def mc)
  qed
  have c11: "r = Fulfilled u \<longrightarrow>
      overlay (settle_initialize r ?p) =
        map_option (\<lambda>el. el\<lparr>opacity := Some ''0'', removes_on_transitionend := True\<rparr>) ov \<and>
      logged (fold settle_initialize (r # rs) ?p) =
        [LogInfo ''Loading IDE'' [], LogInfo ''Load completed'' [Duration (Some (Time 2500))]]"
    unfolding c2
    by (simp add: settle_fulfilled on_fulfilled_overlay on_fulfilled_logged)
  from c1 c2 c3 c4 c5 c6 c7 c8 c9 c10 c12 c11 show ?thesis by (intro conjI)
qed

theorem load_lifecycle_settles_once_witness:
  "Rejected (JsError ''net down'') \<noteq> (Pending :: (unit, js_error) promise) \<and>
   fold settle_initialize [Rejected (JsError ''net down''), Fulfilled (), Rejected (JsError ''again'')]
     (Client_constructor (Some \<lparr>opacity = None, classList = [], removes_on_transitionend = False,
        message_child = Some \<lparr>innerText = ''Loading...'', parent_appended = []\<rparr>\<rparr>)) =
   settle_initialize (Rejected (JsError ''net down'')) (Client_constructor (Some \<lparr>opacity = None, classList = [], removes_on_transitionend = False,
        message_child = Some \<lparr>innerText = ''Loading...'', parent_appended = []\<rparr>\<rparr>)) \<and>
   lifecycle (settle_initialize (Rejected (JsError ''net down'')) (Client_constructor (Some \<lparr>opacity = None, classList = [], removes_on_transitionend = False,
        message_child = Some \<lparr>innerText = ''Loading...'', parent_appended = []\<rparr>\<rparr>))) =
     Failed \<and>
   transitions (fold settle_initialize
     [Rejected (JsError ''net down''), Fulfilled (), Rejected (JsError ''again'')]
     (Client_constructor (Some \<lparr>opacity = None, classList = [], removes_on_transitionend = False,
        message_child = Some \<lparr>innerText = ''Loading...'', parent_appended = []\<rparr>\<rparr>))) = [Failed] \<and>
   marked_errored (settle_initialize (Rejected (JsError ''net down''))
     (Client_constructor (Some \<lparr>opacity = None, classList = [], removes_on_transitionend = False,
        message_child = Some \<lparr>innerText = ''Loading...'', parent_appended = []\<rparr>\<rparr>))) \<and>
   displayed_message (settle_initialize (Rejected (JsError ''net down''))
     (Client_constructor (Some \<lparr>opacity = None, classList = [], removes_on_transitionend = False,
        message_child = Some \<lparr>innerText = ''Loading...'', parent_appended = []\<rparr>\<rparr>))) = Some ''Failed to load: net down.'' \<and>
   reload_affordances (settle_initialize (Rejected (JsError ''net down''))
     (Client_constructor (Some \<lparr>opacity = None, classList = [], removes_on_transitionend = False,
        message_child = Some \<lparr>innerText = ''Loading...'', parent_appended = []\<rparr>\<rparr>))) = [reload_button] \<and>
   overlay (settle_initialize (Rejected (JsError ''net down'')) (Client_constructor None)) =
     None \<and>
   reload_affordances (settle_initialize (Rejected (JsError ''net down''))
     (Client_constructor None)) = [] \<and>
   overlay (settle_initialize (Rejected (JsError ''net down'')) (Client_constructor (Some \<lparr>opacity = None, classList = [], removes_on_transitionend = False,
        message_child = None\<rparr>))) =
     Some \<lparr>opacity = None, classList = [''error''], removes_on_transitionend = False,
        message_child = None\<rparr> \<and>
   displayed_message (settle_initialize (Rejected (JsError ''net down''))
     (Client_constructor (Some \<lparr>opacity = None, classList = [], removes_on_transitionend = False,
        message_child = None\<rparr>))) = None \<and>
   reload_affordances (settle_initialize (Rejected (JsError ''net down''))
     (Client_constructor (Some \<lparr>opacity = None, classList = [], removes_on_transitionend = False,
        message_child = None\<rparr>))) = [] \<and>
   transitions (fold settle_initialize [Fulfilled (), Rejected (JsError ''late'')]
     (Client_constructor (Some \<lparr>opacity = None, classList = [], removes_on_transitionend = False,
        message_child = Some \<lparr>innerText = ''Loading...'', parent_appended = []\<rparr>\<rparr>))) = [Succeeded]"
proof -
  have h: "Rejected (JsError ''net down'') \<noteq> (Pending :: (unit, js_error) promise)" by simp
  have h2: "Fulfilled () \<noteq> (Pending :: (unit, js_error) promise)" by simp
  have e: "reload_affordances (Client_constructor (Some \<lparr>opacity = None, classList = [], removes_on_transitionend = False,
        message_child = Some \<lparr>innerText = ''Loading...'', parent_appended = []\<rparr>\<rparr>)) = []"
    by (simp add: reload_affordances_def Client_constructor_def)
  note i1 = load_lifecycle_settles_once[OF h,
      where ov = "Some \<lparr>opacity = None, classList = [], removes_on_transitionend = False,
        message_child = Some \<lparr>innerText = ''Loading...'', parent_appended = []\<rparr>\<rparr>"
      and rs = "[Fulfilled (), Rejected (JsError ''again'')]" and m = "''net down''"
      and el = "\<lparr>opacity = None, classList = [], removes_on_transitionend = False,
        message_child = Some \<lparr>innerText = ''Loading...'', parent_appended = []\<rparr>\<rparr>"
      and me = "\<lparr>innerText = ''Loading...'', parent_appended = []\<rparr>"]
  note i2 = load_lifecycle_settles_once[OF h, where ov = None and m = "''net down''"]
  note i3 = load_lifecycle_settles_once[OF h,
      where ov = "Some \<lparr>opacity = None, classList = [], removes_on_transitionend = False,
        message_child = None\<rparr>" and m = "''net down''"
      and el = "\<lparr>opacity = None, classList = [], removes_on_transitionend = False,
        message_child = None\<rparr>"]
  note i4 = load_lifecycle_settles_once[OF h2,
      where ov = "Some \<lparr>opacity = None, classList = [], removes_on_transitionend = False,
        message_child = Some \<lparr>innerText = ''Loading...'', parent_appended = []\<rparr>\<rparr>" and rs = "[Rejected (JsError ''late'')]"]
  have a1: "fold settle_initialize
       [Rejected (JsError ''net down''), Fulfilled (), Rejected (JsError ''again'')]
       (Client_constructor (Some \<lparr>opacity = None, classList = [], removes_on_transitionend = False,
        message_child = Some \<lparr>innerText = ''Loading...'', parent_appended = []\<rparr>\<rparr>)) =
     settle_initialize (Rejected (JsError ''net down'')) (Client_constructor (Some \<lparr>opacity = None, classList = [], removes_on_transitionend = False,
        message_child = Some \<lparr>innerText = ''Loading...'', parent_appended = []\<rparr>\<rparr>))"
    by (rule i1[THEN conjunct2, THEN conjunct1])
  have a2: "lifecycle (settle_initialize (Rejected (JsError ''net down''))
       (Client_constructor (Some \<lparr>opacity = None, classList = [], removes_on_transitionend = False,
        message_child = Some \<lparr>innerText = ''Loading...'', parent_appended = []\<rparr>\<rparr>))) = Failed"
    using i1 by simp
  have "transitions (fold settle_initialize
       [Rejected (JsError ''net down''), Fulfilled (), Rejected (JsError ''again'')]
       (Client_constructor (Some \<lparr>opacity = None, classList = [], removes_on_transitionend = False,
        message_child = Some \<lparr>innerText = ''Loading...'', parent_appended = []\<rparr>\<rparr>))) =
     [case (Rejected (JsError ''net down'') :: (unit, js_error) promise) of Fulfilled u \<Rightarrow> Succeeded | _ \<Rightarrow> Failed]"
    by (rule i1[THEN conjunct2, THEN conjunct2, THEN conjunct2, THEN conjunct2, THEN conjunct2, THEN conjunct2, THEN conjunct1])
  then have a3: "transitions (fold settle_initialize
       [Rejected (JsError ''net down''), Fulfilled (), Rejected (JsError ''again'')]
       (Client_constructor (Some \<lparr>opacity = None, classList = [], removes_on_transitionend = False,
        message_child = Some \<lparr>innerText = ''Loading...'', parent_appended = []\<rparr>\<rparr>))) = [Failed]"
    by (simp only: promise.case)
  have a4: "marked_errored (settle_initialize (Rejected (JsError ''net down''))
       (Client_constructor (Some \<lparr>opacity = None, classList = [], removes_on_transitionend = False,
        message_child = Some \<lparr>innerText = ''Loading...'', parent_appended = []\<rparr>\<rparr>)))"
    using i1 by simp
  have a5: "displayed_message (settle_initialize (Rejected (JsError ''net down''))
       (Client_constructor (Some \<lparr>opacity = None, classList = [], removes_on_transitionend = False,
        message_child = Some \<lparr>innerText = ''Loading...'', parent_appended = []\<rparr>\<rparr>))) = Some ''Failed to load: net down.''"
    using i1 by simp
  have a6: "reload_affordances (settle_initialize (Rejected (JsError ''net down''))
       (Client_constructor (Some \<lparr>opacity = None, classList = [], removes_on_transitionend = False,
        message_child = Some \<lparr>innerText = ''Loading...'', parent_appended = []\<rparr>\<rparr>))) = [reload_button]"
    using i1 e by simp
  have b1: "overlay (settle_initialize (Rejected (JsError ''net down''))
       (Client_constructor None)) = None"
    using i2 by simp
  have b2: "reload_affordances (settle_initialize (Rejected (JsError ''net down''))
       (Client_constructor None)) = []"
    using i2 by simp
  have d1: "overlay (settle_initialize (Rejected (JsError ''net down''))
       (Client_constructor (Some \<lparr>opacity = None, classList = [], removes_on_transitionend = False,
        message_child = None\<rparr>))) =
     Some \<lparr>opacity = None, classList = [''error''], removes_on_transitionend = False,
        message_child = None\<rparr>"
    using i3 by (simp add: classList_add_def)
  have d2: "displayed_message (settle_initialize (Rejected (JsError ''net down''))
       (Client_constructor (Some \<lparr>opacity = None, classList = [], removes_on_transitionend = False,
        message_child = None\<rparr>))) = None"
    using i3 by simp
  have d3: "reload_affordances (settle_initialize (Rejected (JsError ''net down''))
       (Client_constructor (Some \<lparr>opacity = None, classList = [], removes_on_transitionend = False,
        message_child = None\<rparr>))) = []"
    using i3 by simp
  have "transitions (fold settle_initialize [Fulfilled (), Rejected (JsError ''late'')]
       (Client_constructor (Some \<lparr>opacity = None, classList = [], removes_on_transitionend = False,
        message_child = Some \<lparr>innerText = ''Loading...'', parent_appended = []\<rparr>\<rparr>))) =
     [case (Fulfilled () :: (unit, js_error) promise) of Fulfilled u \<Rightarrow> Succeeded | _ \<Rightarrow> Failed]"
    by (rule i4[THEN conjunct2, THEN conjunct2, THEN conjunct2, THEN conjunct2, THEN conjunct2, THEN conjunct2, THEN conjunct1])
  then have f1: "transitions (fold settle_initialize [Fulfilled (), Rejected (JsError ''late'')]
       (Client_constructor (Some \<lparr>opacity = None, classList = [], removes_on_transitionend = False,
        message_child = Some \<lparr>innerText = ''Loading...'', parent_appended = []\<rparr>\<rparr>))) = [Succeeded]"
    by (simp only: promise.case)
  show ?thesis by (intro conjI) (fact h a1 a2 a3 a4 a5 a6 b1 b2 d1 d2 d3 f1)+
qed

subsection \<open>The order of the pending list\<close>

lemma subseq_remove1: "subseq (remove1 x xs) xs"
  by (induction xs) auto

lemma step_tasks_subseq:
  assumes "step w ev = Some w'"
  shows "subseq (tasks w' @ called evs) (tasks w @ called (ev # evs))"
  using step_tasks[OF assms] by (cases ev) (simp_all add: subseq_remove1)

lemma run_tasks_subseq:
  "run w evs = Some w' \<Longrightarrow> subseq (tasks w') (tasks w @ called evs)"
proof (induction evs arbitrary: w)
  case Nil
  then show ?case by simp
next
  case (Cons ev evs)
  from Cons.prems obtain w1 where s: "step w ev = Some w1" and r: "run w1 evs = Some w'"
    by (auto split: option.splits)
  from Cons.IH[OF r] step_tasks_subseq[OF s, of evs] show ?case
    by (rule subseq_order.trans)
qed

subsection \<open>The combined wait\<close>

lemma those_fulfilled:
  "those (map fulfilled_value ps) = Some vs \<longleftrightarrow> ps = map Fulfilled vs"
proof (induction ps arbitrary: vs)
  case Nil
  then show ?case by auto
next
  case (Cons p ps)
  show ?case
  proof (cases p)
    case (Fulfilled v)
    then show ?thesis using Cons.IH by (cases vs) (auto split: option.splits)
  qed (auto split: option.splits)
qed

lemma those_unfulfilled:
  "those (map fulfilled_value ps) = None \<Longrightarrow> \<not> list_ex is_rejected ps \<Longrightarrow> Pending \<in> set ps"
proof (induction ps)
  case Nil
  then show ?case by simp
next
  case (Cons p ps)
  then show ?case by (cases p) (auto split: option.splits)
qed

lemma wait_consistent_suspended_call: "wait_consistent (suspended_call d dur n)"
  by (cases n) (simp_all add: wait_consistent_def list_ex_iff)

lemma wait_consistent_settle:
  assumes "wait_consistent a" and "k < length (after a)" and "after a ! k = Pending"
    and "r \<noteq> Pending"
  shows "wait_consistent (settle_after a k r)"
proof (cases "waitFor a")
  case Pending
  with assms(1) have nr: "\<not> list_ex is_rejected (after a)" by (simp add: wait_consistent_def)
  show ?thesis
  proof (cases r)
    case (Rejected e)
    then show ?thesis using assms(2) Pending
      by (simp add: wait_consistent_def settle_after_def set_update_memI)
  next
    case (Fulfilled v)
    have nr': "\<not> list_ex is_rejected ((after a)[k := Fulfilled v])"
      using nr set_update_subset_insert[of "after a" k "Fulfilled v"]
      by (auto simp: list_ex_iff)
    show ?thesis
    proof (cases "those (map fulfilled_value ((after a)[k := Fulfilled v]))")
      case None
      from those_unfulfilled[OF None nr'] nr' show ?thesis
        by (simp add: wait_consistent_def settle_after_def Pending Fulfilled None)
    next
      case (Some vs)
      then have eq: "(after a)[k := Fulfilled v] = map Fulfilled vs"
        by (simp only: those_fulfilled)
      have "settle_after a k r =
            a\<lparr>after := (after a)[k := Fulfilled v], waitFor := Fulfilled vs\<rparr>"
        by (simp add: settle_after_def Pending Fulfilled Some)
      then show ?thesis by (simp add: wait_consistent_def eq)
    qed
  qed (use assms(4) in simp)
next
  case (Fulfilled vs)
  with assms(1) have "after a = map Fulfilled vs" by (simp add: wait_consistent_def)
  with assms(2,3) show ?thesis by simp
next
  case (Rejected e)
  with assms(1) have "Rejected e \<in> set (after a)" by (simp add: wait_consistent_def)
  then obtain j where j: "j < length (after a)" "after a ! j = Rejected e"
    by (auto simp: in_set_conv_nth)
  with assms(3) have "j \<noteq> k" by auto
  with j have "(after a)[k := r] ! j = Rejected e" by simp
  with j(1) have "Rejected e \<in> set ((after a)[k := r])"
    by (metis length_list_update nth_mem)
  then show ?thesis by (simp add: wait_consistent_def settle_after_def Rejected)
qed

lemma wait_consistent_update:
  assumes "list_all wait_consistent as" and "wait_consistent a"
  shows "list_all wait_consistent (as[i := a])"
  using assms set_update_subset_insert[of as i a] by (auto simp: list_all_iff)

lemma wait_consistent_pc [simp]:
  "wait_consistent (a\<lparr>pc := x\<rparr>) = wait_consistent a"
  "wait_consistent (a\<lparr>task_start := t\<rparr>) = wait_consistent a"
  by (simp_all add: wait_consistent_def split: promise.splits)

lemma wait_consistent_step:
  assumes "list_all wait_consistent (activations w)" and "step w ev = Some w'"
  shows "list_all wait_consistent (activations w')"
proof (cases ev)
  case (Call d dur n)
  then show ?thesis using step_activations[OF assms(2)] assms(1)
    by (simp add: wait_consistent_suspended_call)
next
  case (AfterFulfils i k v)
  note s = step_After[OF assms(2), of i k v "Fulfilled v" undefined, simplified AfterFulfils, simplified]
  have "wait_consistent (activations w ! i)" using assms(1) s(1) by (simp add: list_all_length)
  from wait_consistent_settle[OF this s(2,3), of "Fulfilled v"] assms(1) show ?thesis
    by (simp add: s(4) wait_consistent_update)
next
  case (AfterRejects i k e)
  note s = step_After[OF assms(2), of i k undefined "Rejected e" e, simplified AfterRejects, simplified]
  have "wait_consistent (activations w ! i)" using assms(1) s(1) by (simp add: list_all_length)
  from wait_consistent_settle[OF this s(2,3), of "Rejected e"] assms(1) show ?thesis
    by (simp add: s(4) wait_consistent_update)
next
  case (Resume i)
  from assms(2)[unfolded Resume] obtain aw where i: "i < length (activations w)"
    and aw: "task_resume (activations w ! i) w = Some aw" "w' = put i aw"
    by (rule step_Resume)
  have c: "wait_consistent (activations w ! i)" using assms(1) i by (simp add: list_all_length)
  from task_resume_Some[OF aw(1)] c have "wait_consistent (fst aw)" by auto
  then show ?thesis using assms(1) task_resume_fields(4)[OF aw(1)]
    by (simp add: aw(2) wait_consistent_update)
next
  case (TaskFulfils i v)
  note s = step_TaskFulfils[OF assms(2)[unfolded TaskFulfils]]
  have c: "wait_consistent (activations w ! i)" using assms(1) s(1) by (simp add: list_all_length)
  then show ?thesis using assms(1) by (simp add: s(3) wait_consistent_update)
next
  case (TaskRejects i e)
  note s = step_TaskRejects[OF assms(2)[unfolded TaskRejects]]
  have c: "wait_consistent (activations w ! i)" using assms(1) s(1) by (simp add: list_all_length)
  then show ?thesis using assms(1) by (simp add: s(3) wait_consistent_update)
qed

lemma wait_consistent_run:
  "list_all wait_consistent (activations w) \<Longrightarrow> run w evs = Some w' \<Longrightarrow>
   list_all wait_consistent (activations w')"
proof (induction evs arbitrary: w)
  case Nil
  then show ?case by simp
next
  case (Cons ev evs)
  then show ?case by (auto split: option.splits dest: wait_consistent_step)
qed

text \<open>
  C6. After any run from a new client, a call of \<open>task\<close> appends its description to the end
  of the pending list at once, while it is still suspended before the dependency wait
  with every dependency unsettled; so the pending list is always a subsequence of the
  descriptions in call order. The call waits on the one combined promise: it cannot
  resume while that is pending, the combined promise is pending exactly while some
  dependency is pending and none is rejected, in whatever order the dependencies settle,
  and when it is fulfilled the work function receives the values in the order of the
  arguments. With no dependency the call can resume at once, with no argument; with at
  least one it cannot.
\<close>

theorem registration_precedes_dependency_wait:
  assumes "run (new_Client fill) evs = Some w"
  shows "tasks (task_call d dur n w) = tasks w @ [d] \<and>
         activations (task_call d dur n w) = activations w @ [suspended_call d dur n] \<and>
         pc (activations (task_call d dur n w) ! length (activations w)) = AwaitAfter \<and>
         after (activations (task_call d dur n w) ! length (activations w)) = replicate n Pending \<and>
         subseq (tasks w) (called evs) \<and>
         list_all wait_consistent (activations w) \<and>
         (step w (Resume i) = Some w' \<longrightarrow> waitFor (activations w ! i) \<noteq> Pending) \<and>
         (step w (Resume i) = Some w' \<and> waitFor (activations w ! i) = Fulfilled vs \<longrightarrow>
            after (activations w ! i) = map Fulfilled vs \<and>
            pc (activations w' ! i) = AwaitTask vs) \<and>
         (n = 0 \<longrightarrow>
            map_option (\<lambda>w'. pc (activations w' ! length (activations w)))
              (step (task_call d dur n w) (Resume (length (activations w)))) =
            Some (AwaitTask [])) \<and>
         (0 < n \<longrightarrow> step (task_call d dur n w) (Resume (length (activations w))) = None)"
proof -
  have sub: "subseq (tasks w) (called evs)"
    using run_tasks_subseq[OF assms] by (simp add: new_Client_def)
  have con: "list_all wait_consistent (activations w)"
    by (rule wait_consistent_run[OF _ assms]) (simp add: new_Client_def)
  have r1: "step w (Resume i) = Some w' \<longrightarrow> waitFor (activations w ! i) \<noteq> Pending"
  proof
    assume "step w (Resume i) = Some w'"
    then obtain aw where "task_resume (activations w ! i) w = Some aw" by (rule step_Resume)
    from task_resume_Some[OF this] show "waitFor (activations w ! i) \<noteq> Pending" by auto
  qed
  have r2: "step w (Resume i) = Some w' \<and> waitFor (activations w ! i) = Fulfilled vs \<longrightarrow>
            after (activations w ! i) = map Fulfilled vs \<and> pc (activations w' ! i) = AwaitTask vs"
  proof
    assume a: "step w (Resume i) = Some w' \<and> waitFor (activations w ! i) = Fulfilled vs"
    then have "step w (Resume i) = Some w'" by simp
    then obtain aw where i: "i < length (activations w)"
      and aw: "task_resume (activations w ! i) w = Some aw" "w' = put i aw"
      by (rule step_Resume)
    have "wait_consistent (activations w ! i)" using con i by (simp add: list_all_length)
    then have 1: "after (activations w ! i) = map Fulfilled vs"
      using a by (simp add: wait_consistent_def)
    from task_resume_Some[OF aw(1)] a have "pc (fst aw) = AwaitTask vs" by auto
    then have "pc (activations w' ! i) = AwaitTask vs"
      using i task_resume_fields(4)[OF aw(1)] by (simp add: aw(2))
    with 1 show "after (activations w ! i) = map Fulfilled vs \<and>
                 pc (activations w' ! i) = AwaitTask vs" by simp
  qed
  have n0: "n = 0 \<longrightarrow>
            map_option (\<lambda>w'. pc (activations w' ! length (activations w)))
              (step (task_call d dur n w) (Resume (length (activations w)))) =
            Some (AwaitTask [])"
    by (simp add: task_resume_def)
  have n1: "0 < n \<longrightarrow> step (task_call d dur n w) (Resume (length (activations w))) = None"
    by (simp add: task_resume_def)
  from sub con r1 r2 n0 n1 show ?thesis by simp
qed

theorem registration_precedes_dependency_wait_witness:
  "\<exists>w w'.
     run (new_Client None :: (nat, string) world)
       [Call ''A'' None 2, Call ''B'' None 0, AfterFulfils 0 1 5, Resume 1, TaskFulfils 1 9,
        AfterFulfils 0 0 4] = Some w \<and>
     step w (Resume 0) = Some w' \<and>
     tasks w = [''A''] \<and>
     called [Call ''A'' None 2, Call ''B'' None 0, AfterFulfils 0 1 5, Resume 1,
       TaskFulfils 1 (9::nat), AfterFulfils 0 0 4 :: (nat, string) event] = [''A'', ''B''] \<and>
     tasks (task_call ''C'' None 0 w) = [''A'', ''C''] \<and>
     waitFor (activations w ! 0) = Fulfilled [4, 5] \<and>
     after (activations w ! 0) = map Fulfilled [4, 5] \<and>
     pc (activations w' ! 0) = AwaitTask [4, 5] \<and>
     subseq (tasks w)
       (called [Call ''A'' None 2, Call ''B'' None 0, AfterFulfils 0 1 5, Resume 1,
          TaskFulfils 1 (9::nat), AfterFulfils 0 0 4 :: (nat, string) event]) \<and>
     step (task_call ''C'' None 0 w) (Resume (length (activations w))) \<noteq> None"
proof -
  define w :: "(nat, string) world" where
    "w = the (run (new_Client None)
       [Call ''A'' None 2, Call ''B'' None 0, AfterFulfils 0 1 5, Resume 1, TaskFulfils 1 9,
        AfterFulfils 0 0 4])"
  define w' where "w' = the (step w (Resume 0))"
  have r: "run (new_Client None)
       [Call ''A'' None 2, Call ''B'' None 0, AfterFulfils 0 1 5, Resume 1, TaskFulfils 1 9,
        AfterFulfils 0 0 4] = Some w"
    unfolding w_def by (simp add: exec eval_nat_numeral)
  have s: "step w (Resume 0) = Some w'"
    unfolding w'_def w_def by (simp add: exec eval_nat_numeral)
  have t: "tasks w = [''A'']" "waitFor (activations w ! 0) = Fulfilled [4, 5]"
    unfolding w_def by (simp_all add: exec eval_nat_numeral)
  have c: "called [Call ''A'' None 2, Call ''B'' None 0, AfterFulfils 0 1 5, Resume 1,
       TaskFulfils 1 (9::nat), AfterFulfils 0 0 4 :: (nat, string) event] = [''A'', ''B'']"
    by simp
  note inst = registration_precedes_dependency_wait[OF r, where d = "''C''" and dur = None
      and n = 0 and i = 0 and w' = w' and vs = "[4, 5]"]
  have c1: "tasks (task_call ''C'' None 0 w) = [''A'', ''C'']" using inst t by simp
  have c2: "after (activations w ! 0) = map Fulfilled [4, 5] \<and>
            pc (activations w' ! 0) = AwaitTask [4, 5]"
    using inst s t by blast
  have c3: "subseq (tasks w)
       (called [Call ''A'' None 2, Call ''B'' None 0, AfterFulfils 0 1 5, Resume 1,
          TaskFulfils 1 (9::nat), AfterFulfils 0 0 4 :: (nat, string) event])"
    using inst by blast
  have m: "map_option (\<lambda>w'. pc (activations w' ! length (activations w)))
              (step (task_call ''C'' None 0 w) (Resume (length (activations w)))) =
            Some (AwaitTask [])"
    using inst by blast
  have c4: "step (task_call ''C'' None 0 w) (Resume (length (activations w))) \<noteq> None"
  proof
    assume e: "step (task_call ''C'' None 0 w) (Resume (length (activations w))) = None"
    from m show False unfolding e by simp
  qed
  show ?thesis using r s t c c1 c2 c3 c4 by blast
qed

subsection \<open>A call across a run\<close>














subsection \<open>The duration budget\<close>

lemma forget_time_idem [simp]: "forget_time (forget_time t) = forget_time t"
  by (cases t) (simp_all add: forget_time_def)

lemma forget_time_simps [simp]:
  "forget_time None = None" "forget_time (Some t) = Some (Time 0)"
  by (simp_all add: forget_time_def)

lemma forget_field_idem [simp]: "forget_field (forget_field f) = forget_field f"
  by (cases f) simp_all

lemma forget_effect_idem [simp]: "forget_effect (forget_effect x) = forget_effect x"
  by (cases x) simp_all

lemma forget_activation_idem [simp]:
  "forget_activation (forget_activation a) = forget_activation a"
  by (simp add: forget_activation_def)

lemma forget_comp [simp]:
  "forget_activation \<circ> forget_activation = forget_activation"
  "forget_effect \<circ> forget_effect = forget_effect"
  by (rule ext, simp)+

lemma forget_activation_pc [simp]:
  "forget_activation (forget_activation a\<lparr>pc := x\<rparr>) = forget_activation (a\<lparr>pc := x\<rparr>)"
  by (simp add: forget_activation_def)

lemma forget_activation_fields [simp]:
  "description (forget_activation a) = description a"
  "after (forget_activation a) = after a"
  "waitFor (forget_activation a) = waitFor a"
  "pc (forget_activation a) = pc a"
  "task_start (forget_activation a) = forget_time (task_start a)"
  "duration (forget_activation a) = 0"
  by (simp_all add: forget_activation_def)

lemma forget_budgets_fields [simp]:
  "tasks (forget_budgets w) = tasks w"
  "start (forget_budgets w) = start w"
  "finishedTaskCount (forget_budgets w) = finishedTaskCount w"
  "progressElement (forget_budgets w) = progressElement w"
  "activations (forget_budgets w) = map forget_activation (activations w)"
  "effects (forget_budgets w) = map forget_effect (effects w)"
  by (simp_all add: forget_budgets_def)

lemma forget_budgets_eqI:
  assumes "tasks w1 = tasks w2" "start w1 = start w2"
    "finishedTaskCount w1 = finishedTaskCount w2" "progressElement w1 = progressElement w2"
    "map forget_activation (activations w1) = map forget_activation (activations w2)"
    "map forget_effect (effects w1) = map forget_effect (effects w2)"
    "world.more w1 = world.more w2"
  shows "forget_budgets w1 = forget_budgets w2"
  using assms by (simp add: forget_budgets_def world.equality)

lemma progress_percent_forget [simp]:
  "progress_percent (forget_budgets w) = progress_percent w"
  by (simp add: progress_percent_def progress_denominator_def)

lemma more_fields [simp]:
  "world.more (updateProgress w) = world.more w"
  "world.more (task_register d w) = world.more w"
  "world.more (task_call d dur n w) = world.more w"
  "world.more (task_finish a w) = world.more w"
  "world.more (snd (task_success a v w)) = world.more w"
  "world.more (snd (task_catch a e w)) = world.more w"
  "world.more (put i aw) = world.more (snd aw)"
  "world.more (forget_budgets w) = world.more w"
  by (simp_all add: updateProgress_def task_register_def task_call_def task_finish_def
      task_success_def task_catch_def put_def forget_budgets_def Let_def split: option.splits)

lemma forget_budgets_call:
  "forget_budgets (task_call d dur n w) = forget_budgets (task_call d dur' n (forget_budgets w))"
proof (rule forget_budgets_eqI)
  show "map forget_activation (activations (task_call d dur n w)) =
        map forget_activation (activations (task_call d dur' n (forget_budgets w)))"
    by (simp add: suspended_call_def forget_activation_def)
  show "map forget_effect (effects (task_call d dur n w)) =
        map forget_effect (effects (task_call d dur' n (forget_budgets w)))"
    by (simp add: task_call_effects progress_percent_def progress_denominator_def
        split: option.splits)
  show "progressElement (task_call d dur n w) =
        progressElement (task_call d dur' n (forget_budgets w))"
    by (simp add: task_call_element progress_percent_def progress_denominator_def)
qed simp_all


lemma returned_promise_forget: "returned_promise (forget_activation a) = returned_promise a"
  by (simp add: returned_promise_def)

lemma forget_settle_after:
  "forget_activation (settle_after (forget_activation a) k r) =
   forget_activation (settle_after a k r)"
  by (simp add: settle_after_def forget_activation_def Let_def)

lemma forget_put: "forget_budgets (put i aw) = put i (forget_activation (fst aw), forget_budgets (snd aw))"
  by (simp add: put_def forget_budgets_def map_update)

lemma forget_catch:
  "forget_activation (fst (task_catch (forget_activation a) e (forget_budgets w))) =
   forget_activation (fst (task_catch a e w))"
  "forget_budgets (snd (task_catch (forget_activation a) e (forget_budgets w))) =
   forget_budgets (snd (task_catch a e w))"
proof -
  show "forget_activation (fst (task_catch (forget_activation a) e (forget_budgets w))) =
        forget_activation (fst (task_catch a e w))"
    by (simp add: forget_activation_def)
  show "forget_budgets (snd (task_catch (forget_activation a) e (forget_budgets w))) =
        forget_budgets (snd (task_catch a e w))"
    by (rule forget_budgets_eqI)
       (simp_all add: task_catch_effects task_catch_element split: option.splits)
qed

lemma forget_success:
  "forget_activation (fst (task_success (forget_activation a) v (forget_budgets w))) =
   forget_activation (fst (task_success a v w))"
  "forget_budgets (snd (task_success (forget_activation a) v (forget_budgets w))) =
   forget_budgets (snd (task_success a v w))"
proof -
  have pp: "progress_percent (task_finish (forget_activation a) (forget_budgets w)) =
            progress_percent (task_finish a w)"
    by (simp add: progress_percent_def progress_denominator_def)
  show "forget_activation (fst (task_success (forget_activation a) v (forget_budgets w))) =
        forget_activation (fst (task_success a v w))"
    by (simp add: forget_activation_def)
  show "forget_budgets (snd (task_success (forget_activation a) v (forget_budgets w))) =
        forget_budgets (snd (task_success a v w))"
    by (rule forget_budgets_eqI)
       (simp_all add: task_success_effects task_success_element pp split: option.splits)
qed

lemma forget_resume:
  "map_option forget_pair (task_resume (forget_activation a) (forget_budgets w)) =
   map_option forget_pair (task_resume a w)"
proof (cases "waitFor a")
  case Pending
  then show ?thesis by (simp add: task_resume_def)
next
  case (Fulfilled vs)
  then show ?thesis
    by (simp add: task_resume_def forget_pair_def forget_activation_def forget_budgets_def)
next
  case (Rejected e)
  then show ?thesis by (simp add: task_resume_def forget_pair_def forget_catch)
qed

lemma forget_step:
  "map_option forget_budgets (step (forget_budgets w) (forget_budget ev)) =
   map_option forget_budgets (step w ev)"
proof (cases ev)
  case (Call d dur n)
  show ?thesis using forget_budgets_call[of d dur n w None] by (simp add: Call)
next
  case (AfterFulfils i k v)
  have dp: "dependency_pending (forget_budgets w) i k = dependency_pending w i k"
    by (auto simp: dependency_pending_def)
  show ?thesis
    by (auto simp: AfterFulfils dp dependency_pending_def forget_settle_after map_update
        intro!: forget_budgets_eqI)
next
  case (AfterRejects i k e)
  have dp: "dependency_pending (forget_budgets w) i k = dependency_pending w i k"
    by (auto simp: dependency_pending_def)
  show ?thesis
    by (auto simp: AfterRejects dp dependency_pending_def forget_settle_after map_update
        intro!: forget_budgets_eqI)
next
  case (Resume i)
  show ?thesis
  proof (cases "i < length (activations w) \<and> pc (activations w ! i) = AwaitAfter")
    case True
    have "map_option forget_budgets (map_option (put i) (task_resume (forget_activation (activations w ! i)) (forget_budgets w))) =
          map_option (put i) (map_option forget_pair (task_resume (forget_activation (activations w ! i)) (forget_budgets w)))"
      by (simp add: option.map_comp comp_def forget_put forget_pair_def)
    also have "\<dots> = map_option (put i) (map_option forget_pair (task_resume (activations w ! i) w))"
      by (simp only: forget_resume)
    also have "\<dots> = map_option forget_budgets (map_option (put i) (task_resume (activations w ! i) w))"
      by (simp add: option.map_comp comp_def forget_put forget_pair_def)
    finally show ?thesis using True by (simp add: Resume)
  next
    case False
    then show ?thesis by (auto simp: Resume)
  qed
next
  case (TaskFulfils i v)
  show ?thesis
  proof (cases "i < length (activations w)")
    case True
    then show ?thesis
      by (simp add: TaskFulfils forget_put forget_success split: pc.splits)
  next
    case False
    then show ?thesis by (simp add: TaskFulfils)
  qed
next
  case (TaskRejects i e)
  show ?thesis
  proof (cases "i < length (activations w)")
    case True
    then show ?thesis
      by (simp add: TaskRejects forget_put forget_catch split: pc.splits)
  next
    case False
    then show ?thesis by (simp add: TaskRejects)
  qed
qed

lemma forget_step_cong:
  assumes "forget_budgets w1 = forget_budgets w2" and "forget_budget ev1 = forget_budget ev2"
  shows "map_option forget_budgets (step w1 ev1) = map_option forget_budgets (step w2 ev2)"
  using forget_step[of w1 ev1] forget_step[of w2 ev2] assms by simp

lemma forget_run_cong:
  "forget_budgets w1 = forget_budgets w2 \<Longrightarrow> map forget_budget evs1 = map forget_budget evs2 \<Longrightarrow>
   map_option forget_budgets (run w1 evs1) = map_option forget_budgets (run w2 evs2)"
proof (induction evs1 arbitrary: evs2 w1 w2)
  case Nil
  then show ?case by simp
next
  case (Cons ev1 evs1)
  from Cons.prems(2) obtain ev2 evs2' where evs2: "evs2 = ev2 # evs2'"
    and e: "forget_budget ev1 = forget_budget ev2"
    and es: "map forget_budget evs1 = map forget_budget evs2'"
    by (cases evs2) auto
  note sc = forget_step_cong[OF Cons.prems(1) e]
  show ?case
  proof (cases "step w1 ev1")
    case None
    with sc have "step w2 ev2 = None" by simp
    with None show ?thesis by (simp add: evs2)
  next
    case (Some u1)
    with sc obtain u2 where u2: "step w2 ev2 = Some u2" "forget_budgets u1 = forget_budgets u2"
      by (cases "step w2 ev2") auto
    from Cons.IH[OF u2(2) es] Some u2(1) show ?thesis by (simp add: evs2)
  qed
qed


text \<open>
  C8. The duration budget is advisory. Two runs from the same world whose events agree in
  everything but the budgets passed to \<open>task\<close> are possible or impossible together, and end
  in worlds that agree in everything but the budgets: the same pending list,
  \<open>finishedTaskCount\<close>, session timer and progress element, every call at the same point
  with the same returned promise (the same value or the same error), and the same effects
  up to the budgets of the timers in the log. No event of the model is enabled or disabled
  by a budget.
\<close>

theorem duration_budget_is_advisory:
  assumes "map forget_budget evs1 = map forget_budget evs2"
  shows "map_option forget_budgets (run w evs1) = map_option forget_budgets (run w evs2) \<and>
         (run w evs1 = None \<longleftrightarrow> run w evs2 = None) \<and>
         (\<forall>u1 u2. run w evs1 = Some u1 \<and> run w evs2 = Some u2 \<longrightarrow>
            tasks u1 = tasks u2 \<and> finishedTaskCount u1 = finishedTaskCount u2 \<and>
            start u1 = start u2 \<and> progressElement u1 = progressElement u2 \<and>
            map pc (activations u1) = map pc (activations u2) \<and>
            map returned_promise (activations u1) = map returned_promise (activations u2) \<and>
            map forget_effect (effects u1) = map forget_effect (effects u2))"
proof -
  have eq: "map_option forget_budgets (run w evs1) = map_option forget_budgets (run w evs2)"
    by (rule forget_run_cong[OF refl assms])
  then have none: "run w evs1 = None \<longleftrightarrow> run w evs2 = None"
    by (cases "run w evs1"; cases "run w evs2") simp_all
  have "tasks u1 = tasks u2 \<and> finishedTaskCount u1 = finishedTaskCount u2 \<and>
        start u1 = start u2 \<and> progressElement u1 = progressElement u2 \<and>
        map pc (activations u1) = map pc (activations u2) \<and>
        map returned_promise (activations u1) = map returned_promise (activations u2) \<and>
        map forget_effect (effects u1) = map forget_effect (effects u2)"
    if "run w evs1 = Some u1 \<and> run w evs2 = Some u2" for u1 u2
  proof -
    from that eq have f: "forget_budgets u1 = forget_budgets u2" by simp
    have a: "map forget_activation (activations u1) = map forget_activation (activations u2)"
      using arg_cong[OF f, of activations] by simp
    have "map pc (map forget_activation (activations u1)) =
          map pc (map forget_activation (activations u2))"
      by (simp only: a)
    then have p: "map pc (activations u1) = map pc (activations u2)"
      by (simp add: comp_def)
    have "map returned_promise (map forget_activation (activations u1)) =
          map returned_promise (map forget_activation (activations u2))"
      by (simp only: a)
    then have q: "map returned_promise (activations u1) = map returned_promise (activations u2)"
      by (simp add: comp_def returned_promise_forget)
    from arg_cong[OF f, of tasks] arg_cong[OF f, of finishedTaskCount] arg_cong[OF f, of start]
      arg_cong[OF f, of progressElement] arg_cong[OF f, of effects] p q
    show ?thesis by simp
  qed
  with eq none show ?thesis by blast
qed

theorem duration_budget_is_advisory_witness:
  "map forget_budget [Call ''A'' (Some 1) 0, Resume 0, TaskFulfils 0 (7::nat),
       Call ''B'' None 0, Resume 1, TaskRejects 1 ''net down''] =
   map forget_budget [Call ''A'' (Some 100000) 0, Resume 0, TaskFulfils 0 (7::nat),
       Call ''B'' (Some 5) 0, Resume 1, TaskRejects 1 ''net down''] \<and>
   (\<exists>u1 u2.
      run (new_Client None) [Call ''A'' (Some 1) 0, Resume 0, TaskFulfils 0 (7::nat),
        Call ''B'' None 0, Resume 1, TaskRejects 1 ''net down''] = Some u1 \<and>
      run (new_Client None) [Call ''A'' (Some 100000) 0, Resume 0, TaskFulfils 0 (7::nat),
        Call ''B'' (Some 5) 0, Resume 1, TaskRejects 1 ''net down''] = Some u2 \<and>
      map duration (activations u1) = [1, 100] \<and> map duration (activations u2) = [100000, 5] \<and>
      tasks u1 = tasks u2 \<and> finishedTaskCount u1 = finishedTaskCount u2 \<and>
      start u1 = start u2 \<and>
      map returned_promise (activations u1) = map returned_promise (activations u2))"
proof -
  define u1 :: "(nat, string) world" where
    "u1 = the (run (new_Client None) [Call ''A'' (Some 1) 0, Resume 0, TaskFulfils 0 7,
        Call ''B'' None 0, Resume 1, TaskRejects 1 ''net down''])"
  define u2 :: "(nat, string) world" where
    "u2 = the (run (new_Client None) [Call ''A'' (Some 100000) 0, Resume 0, TaskFulfils 0 7,
        Call ''B'' (Some 5) 0, Resume 1, TaskRejects 1 ''net down''])"
  have h: "map forget_budget [Call ''A'' (Some 1) 0, Resume 0, TaskFulfils 0 (7::nat),
       Call ''B'' None 0, Resume 1, TaskRejects 1 ''net down''] =
     map forget_budget [Call ''A'' (Some 100000) 0, Resume 0, TaskFulfils 0 7,
       Call ''B'' (Some 5) 0, Resume 1, TaskRejects 1 ''net down'']"
    by simp
  have r1: "run (new_Client None) [Call ''A'' (Some 1) 0, Resume 0, TaskFulfils 0 7,
        Call ''B'' None 0, Resume 1, TaskRejects 1 ''net down''] = Some u1"
    unfolding u1_def by (simp add: exec)
  have r2: "run (new_Client None) [Call ''A'' (Some 100000) 0, Resume 0, TaskFulfils 0 7,
        Call ''B'' (Some 5) 0, Resume 1, TaskRejects 1 ''net down''] = Some u2"
    unfolding u2_def by (simp add: exec)
  have d: "map duration (activations u1) = [1, 100]" "map duration (activations u2) = [100000, 5]"
    unfolding u1_def u2_def by (simp_all add: exec)
  have c: "tasks u1 = tasks u2 \<and> finishedTaskCount u1 = finishedTaskCount u2 \<and>
      start u1 = start u2 \<and>
      map returned_promise (activations u1) = map returned_promise (activations u2)"
    using duration_budget_is_advisory[OF h, of "new_Client None"] r1 r2 by blast
  then have c1: "tasks u1 = tasks u2" and c2: "finishedTaskCount u1 = finishedTaskCount u2"
    and c3: "start u1 = start u2"
    and c4: "map returned_promise (activations u1) = map returned_promise (activations u2)"
    by simp_all
  show ?thesis
    by (intro conjI exI[of _ u1] exI[of _ u2]) (fact h r1 r2 d c1 c2 c3 c4)+
qed

subsection \<open>The scenarios of the specification\<close>

text \<open>
  Scenario A: one call \<open>init-config\<close> without dependencies whose work function resolves
  leaves an empty pending list, one finished task and a progress of 100.
\<close>

lemma scenario_A:
  "map_option (\<lambda>w. (tasks w, finishedTaskCount w, map_option width (progressElement w), start w))
     (run (new_Client (Some \<lparr>width = None, backgroundColor = None\<rparr>) :: (nat, string) world)
        [Call ''init-config'' (Some 200) 0, Resume 0, TaskFulfils 0 1]) =
   Some ([], 1, Some (Some (Finite 100)), None)"
  by (simp add: exec)

text \<open>
  Scenario B: calls \<open>A\<close> and \<open>B\<close>; \<open>B\<close> resolves first (pending \<open>[A]\<close>, one finished,
  progress 50), then \<open>A\<close> (pending empty, two finished, progress 100).
\<close>

lemma scenario_B:
  "map_option (\<lambda>w. (tasks w, finishedTaskCount w, map_option width (progressElement w)))
     (run (new_Client (Some \<lparr>width = None, backgroundColor = None\<rparr>) :: (nat, string) world)
        [Call ''A'' (Some 300) 0, Call ''B'' (Some 150) 0, Resume 0, Resume 1, TaskFulfils 1 1]) =
   Some ([''A''], 1, Some (Some (Finite 50))) \<and>
   map_option (\<lambda>w. (tasks w, finishedTaskCount w, map_option width (progressElement w)))
     (run (new_Client (Some \<lparr>width = None, backgroundColor = None\<rparr>) :: (nat, string) world)
        [Call ''A'' (Some 300) 0, Call ''B'' (Some 150) 0, Resume 0, Resume 1, TaskFulfils 1 1,
         TaskFulfils 0 2]) =
   Some ([], 2, Some (Some (Finite 100)))"
  by (simp add: exec)

text \<open>
  Scenario C: the work function of \<open>load-theme\<close> rejects with \<open>net down\<close>: the call rejects
  with \<open>net down\<close>, the pending list still holds \<open>load-theme\<close>, the error marker is set.
\<close>

lemma scenario_C:
  "map_option (\<lambda>w. (map returned_promise (activations w), tasks w,
                     map_option backgroundColor (progressElement w)))
     (run (new_Client (Some \<lparr>width = None, backgroundColor = None\<rparr>) :: (nat, string) world)
        [Call ''load-theme'' (Some 100) 0, Resume 0, TaskRejects 0 ''net down'']) =
   Some ([Rejected ''net down''], [''load-theme''], Some (Some ''red''))"
  by (simp add: exec returned_promise_def)

end
